theory Spec2Isabelle
  imports Main "HOL-Library.Word" "HOL-Library.Sublist"
begin

section \<open>The BOM scanner \<^verbatim>\<open>list_bom.py\<close>\<close>

text \<open>
  The script walks a fixed root directory with \<^verbatim>\<open>os.walk\<close>, looks at every listed
  non-directory name with a recognised extension, opens the file in binary mode, reads
  three bytes and prints the root-relative path when they are the UTF-8 byte order mark.
  The whole body of the per-file check sits in \<^verbatim>\<open>try: ... except Exception: pass\<close>.

  The operating system is a record of what each primitive answers at each path, with the
  metadata of each path, the lines printed so far and the list of paths handed to
  \<^verbatim>\<open>open\<close>. An answer of \<^verbatim>\<open>open\<close> and of \<^verbatim>\<open>read\<close> can be that the call never returns; a
  function of the script that meets such a call has the value \<open>None\<close>. Listing a
  directory and writing to standard output are taken to return. A path is the list of its
  components: the names of directory entries hold no separator, so
  \<^verbatim>\<open>os.path.join(dirpath, name)\<close> appends one component.
\<close>

subsection \<open>Data\<close>

type_synonym byte = "8 word"
type_synonym name = string
type_synonym path = "name list"

text \<open>The exceptions the primitives raise; all of them derive from \<^verbatim>\<open>Exception\<close>.\<close>

datatype exn =
    FileNotFoundError
  | PermissionError
  | IsADirectoryError
  | NotADirectoryError
  | OSError
  | UnicodeEncodeError
  | ValueError

text \<open>An \<^verbatim>\<open>os.DirEntry\<close>: its name and the answer of \<^verbatim>\<open>is_dir()\<close>, which follows
  symbolic links.\<close>

record dirent =
  d_name :: name
  d_is_dir :: bool

text \<open>What a path does when it is opened and read: it delivers its bytes, or
  \<^verbatim>\<open>open(path, 'rb')\<close> raises, or \<^verbatim>\<open>open\<close> never returns (a named pipe that no
  writer has opened), or \<^verbatim>\<open>f.read\<close> raises, or \<^verbatim>\<open>f.read\<close> never returns (a pipe whose
  writer stays silent).\<close>

datatype behaviour =
    Readable
  | Open_raises exn
  | Open_blocks
  | Read_raises exn
  | Read_blocks

text \<open>A file as \<^verbatim>\<open>open\<close> and \<^verbatim>\<open>read\<close> meet it: its bytes and what opening and reading it
  does. Its metadata are in the field \<open>stat\<close> of the world below, where directories have
  theirs too.\<close>

record fileobj =
  data :: "byte list"
  behaviour :: behaviour

definition open_error :: "fileobj \<Rightarrow> exn option" where
  "open_error f = (case behaviour f of Open_raises e \<Rightarrow> Some e | _ \<Rightarrow> None)"

definition read_error :: "fileobj \<Rightarrow> exn option" where
  "read_error f = (case behaviour f of Read_raises e \<Rightarrow> Some e | _ \<Rightarrow> None)"

definition blocks :: "fileobj \<Rightarrow> bool" where
  "blocks f = (behaviour f = Open_blocks \<or> behaviour f = Read_blocks)"

text \<open>The metadata \<^verbatim>\<open>os.stat\<close> gives for a path, file or directory.\<close>

record stat_result =
  st_mode :: nat
  st_size :: nat
  st_mtime :: nat
  st_atime :: nat

text \<open>The world: what each primitive answers at each path, the metadata of each path,
  the access time the operating system records when a path is read or listed
  (\<open>atime_on_access\<close>: the old one on a mount that records none, a new one otherwise),
  the paths handed to \<^verbatim>\<open>open\<close> and the lines on standard output.\<close>

record world =
  dir_entries :: "path \<Rightarrow> exn + dirent list"
  symlinks :: "path \<Rightarrow> bool"
  files :: "path \<Rightarrow> fileobj"
  stat :: "path \<Rightarrow> stat_result"
  atime_on_access :: "path \<Rightarrow> nat"
  print_error :: "path \<Rightarrow> exn option"
  opened :: "path list"
  stdout :: "path list"

type_synonym walk_item = "path \<times> name list \<times> name list"

subsection \<open>The primitives\<close>

definition os_scandir :: "world \<Rightarrow> path \<Rightarrow> exn + dirent list" where
  "os_scandir w p = dir_entries w p"

definition os_path_islink :: "world \<Rightarrow> path \<Rightarrow> bool" where
  "os_path_islink w p = symlinks w p"

definition os_path_join :: "path \<Rightarrow> name \<Rightarrow> path" where
  "os_path_join dirpath name = dirpath @ [name]"

text \<open>The operating system records an access to \<open>p\<close>: the access time of \<open>p\<close> becomes
  what \<open>atime_on_access\<close> says, nothing else changes.\<close>

definition accessed :: "world \<Rightarrow> path \<Rightarrow> world" where
  "accessed w p = w\<lparr>stat := (stat w)(p := (stat w p)\<lparr>st_atime := atime_on_access w p\<rparr>)\<rparr>"

text \<open>\<^verbatim>\<open>open(path, 'rb')\<close>: \<open>None\<close> is a call that never returns. The attempt is
  logged; the file system is not touched.\<close>

definition open_rb :: "world \<Rightarrow> path \<Rightarrow> ((exn + fileobj) \<times> world) option" where
  "open_rb w p =
     (case behaviour (files w p) of
        Open_blocks \<Rightarrow> None
      | Open_raises e \<Rightarrow> Some (Inl e, w\<lparr>opened := opened w @ [p]\<rparr>)
      | _ \<Rightarrow> Some (Inr (files w p), w\<lparr>opened := opened w @ [p]\<rparr>))"

text \<open>\<^verbatim>\<open>f.read(n)\<close> on the buffered binary file \<open>f\<close> opened at \<open>p\<close>: at most \<open>n\<close> bytes,
  fewer only at the end, and the access is recorded; or the read raises; or it never
  returns.\<close>

definition read :: "world \<Rightarrow> path \<Rightarrow> fileobj \<Rightarrow> nat \<Rightarrow> ((exn + byte list) \<times> world) option" where
  "read w p f n =
     (case behaviour f of
        Read_blocks \<Rightarrow> None
      | Read_raises e \<Rightarrow> Some (Inl e, w)
      | _ \<Rightarrow> Some (Inr (take n (data f)), accessed w p))"

definition startswith :: "byte list \<Rightarrow> byte list \<Rightarrow> bool" where
  "startswith bs pre = prefix pre bs"

text \<open>\<^verbatim>\<open>str.endswith\<close> with a tuple: some member is a suffix.\<close>

definition endswith :: "string \<Rightarrow> string list \<Rightarrow> bool" where
  "endswith s sufs = list_ex (\<lambda>suf. suffix suf s) sufs"

text \<open>\<^verbatim>\<open>os.path.relpath(path, start)\<close> on absolute, normalised component lists: the
  common prefix is dropped, one \<^verbatim>\<open>..\<close> stands for each remaining component of
  \<open>start\<close>, an empty result is \<^verbatim>\<open>.\<close>, and an empty \<open>path\<close> raises.\<close>

fun commonprefix :: "path \<Rightarrow> path \<Rightarrow> path" where
  "commonprefix (x # xs) (y # ys) = (if x = y then x # commonprefix xs ys else [])"
| "commonprefix xs ys = []"

definition os_path_relpath :: "path \<Rightarrow> path \<Rightarrow> exn + path" where
  "os_path_relpath p start =
     (if p = [] then Inl ValueError
      else
        let i = length (commonprefix start p);
            rel_list = replicate (length start - i) ''..'' @ drop i p
        in if rel_list = [] then Inr [''.''] else Inr rel_list)"

text \<open>\<^verbatim>\<open>print(rel)\<close>: the line goes to standard output, or the write raises (an
  unencodable name, a closed stream) and nothing is written. The stream is taken to
  accept what is written to it.\<close>

definition py_print :: "world \<Rightarrow> path \<Rightarrow> (exn + unit) \<times> world" where
  "py_print w line =
     (case print_error w line of
        Some e \<Rightarrow> (Inl e, w)
      | None \<Rightarrow> (Inr (), w\<lparr>stdout := stdout w @ [line]\<rparr>))"

subsection \<open>\<^verbatim>\<open>os.walk\<close>\<close>

text \<open>
  \<^verbatim>\<open>os.walk(top, topdown=True, onerror=None, followlinks=False)\<close> as the standard
  library has it: an \<^verbatim>\<open>OSError\<close> of \<^verbatim>\<open>scandir\<close> goes to \<^verbatim>\<open>onerror\<close>, which is
  \<^verbatim>\<open>None\<close>, and the directory yields nothing; otherwise the directory is yielded with
  its directory names and its other names, and then each directory name is walked unless
  it is a symbolic link and \<^verbatim>\<open>followlinks\<close> is false. The oracle of a world may describe a
  tree without end, so the walk takes fuel, one unit for each level; \<open>None\<close> is a walk
  that has not returned. The access that each successful listing leaves on its directory
  is recorded by \<open>scan\<close>, for the directories the walk has yielded.
\<close>

fun os_walk :: "nat \<Rightarrow> world \<Rightarrow> path \<Rightarrow> bool \<Rightarrow> walk_item list option" where
  "os_walk 0 w topdir followlinks = None"
| "os_walk (Suc fuel) w topdir followlinks =
     (case os_scandir w topdir of
        Inl error \<Rightarrow> Some []
      | Inr entries \<Rightarrow>
          (let dirs = map d_name (filter d_is_dir entries);
               nondirs = map d_name (filter (\<lambda>entry. \<not> d_is_dir entry) entries)
           in case those (map (\<lambda>dirname.
                       let new_path = os_path_join topdir dirname
                       in if followlinks \<or> \<not> os_path_islink w new_path
                          then os_walk fuel w new_path followlinks
                          else Some []) dirs) of
                None \<Rightarrow> None
              | Some rest \<Rightarrow> Some ((topdir, dirs, nondirs) # concat rest)))"

subsection \<open>The script\<close>

definition root :: path where
  "root = [''D:'', ''Balaji_DS_Portfolio'', ''CRM_BenchSales_AI_Integration'']"

definition exts :: "string list" where
  "exts = [''.json'', ''.jsonc'', ''.mjs'', ''.js'', ''.ts'', ''.yaml'', ''.yml'']"

definition BOM :: "byte list" where
  "BOM = [0xEF, 0xBB, 0xBF]"

text \<open>The body of the \<^verbatim>\<open>try\<close>: an exception of any step leaves it at once, and a
  call that never returns keeps the whole program from returning.\<close>

definition try_body :: "world \<Rightarrow> path \<Rightarrow> path \<Rightarrow> ((exn + unit) \<times> world) option" where
  "try_body w rt p =
     (case open_rb w p of
        None \<Rightarrow> None
      | Some (Inl e, w1) \<Rightarrow> Some (Inl e, w1)
      | Some (Inr f, w1) \<Rightarrow>
          (case read w1 p f 3 of
             None \<Rightarrow> None
           | Some (Inl e, w2) \<Rightarrow> Some (Inl e, w2)
           | Some (Inr head, w2) \<Rightarrow>
               if startswith head BOM then
                 (case os_path_relpath p rt of
                    Inl e \<Rightarrow> Some (Inl e, w2)
                  | Inr rel \<Rightarrow> Some (py_print w2 rel))
               else Some (Inr (), w2)))"

text \<open>One turn of the inner loop: the extension filter, then the \<^verbatim>\<open>try\<close> with its
  handler \<^verbatim>\<open>except Exception: pass\<close>.\<close>

definition check_file :: "world \<Rightarrow> path \<Rightarrow> path \<Rightarrow> name \<Rightarrow> ((exn + unit) \<times> world) option" where
  "check_file w rt dirpath name =
     (if endswith name exts then
        (let p = os_path_join dirpath name
         in case try_body w rt p of
              None \<Rightarrow> None
            | Some (Inl e, w1) \<Rightarrow> Some (Inr (), w1)
            | Some (Inr u, w1) \<Rightarrow> Some (Inr (), w1))
      else Some (Inr (), w))"

text \<open>The two loops; an exception that left a turn would end them.\<close>

fun for_names :: "world \<Rightarrow> path \<Rightarrow> path \<Rightarrow> name list \<Rightarrow> ((exn + unit) \<times> world) option" where
  "for_names w rt dirpath [] = Some (Inr (), w)"
| "for_names w rt dirpath (name # filenames) =
     (case check_file w rt dirpath name of
        None \<Rightarrow> None
      | Some (Inl e, w1) \<Rightarrow> Some (Inl e, w1)
      | Some (Inr u, w1) \<Rightarrow> for_names w1 rt dirpath filenames)"

fun for_items :: "world \<Rightarrow> path \<Rightarrow> walk_item list \<Rightarrow> ((exn + unit) \<times> world) option" where
  "for_items w rt [] = Some (Inr (), w)"
| "for_items w rt ((dirpath, dirnames, filenames) # items) =
     (case for_names w rt dirpath filenames of
        None \<Rightarrow> None
      | Some (Inl e, w1) \<Rightarrow> Some (Inl e, w1)
      | Some (Inr u, w1) \<Rightarrow> for_items w1 rt items)"

text \<open>The program on the root \<open>rt\<close>; \<open>None\<close> is a run that does not return. The
  generator is run first, the accesses of its listings are recorded, and the loop body
  runs after it: the body changes nothing that the walk reads.\<close>

fun accessed_dirs :: "world \<Rightarrow> walk_item list \<Rightarrow> world" where
  "accessed_dirs w [] = w"
| "accessed_dirs w ((dirpath, dirnames, filenames) # items) =
     accessed_dirs (accessed w dirpath) items"

definition scan :: "nat \<Rightarrow> world \<Rightarrow> path \<Rightarrow> ((exn + unit) \<times> world) option" where
  "scan fuel w rt =
     (case os_walk fuel w rt False of
        None \<Rightarrow> None
      | Some items \<Rightarrow> for_items (accessed_dirs w items) rt items)"

definition main :: "nat \<Rightarrow> world \<Rightarrow> ((exn + unit) \<times> world) option" where
  "main fuel w = scan fuel w root"

subsection \<open>What the claims speak of\<close>

text \<open>\<open>descends w d rel\<close>: from the directory \<open>d\<close> the components \<open>rel\<close> lead down through
  listed directories that are no symbolic links. \<open>listed_file w d n\<close>: the listing of
  \<open>d\<close> holds \<open>n\<close> as a name that is no directory.\<close>

fun descends :: "world \<Rightarrow> path \<Rightarrow> path \<Rightarrow> bool" where
  "descends w d [] = True"
| "descends w d (n # rel) =
     (case os_scandir w d of
        Inl e \<Rightarrow> False
      | Inr entries \<Rightarrow>
          list_ex (\<lambda>entry. d_name entry = n \<and> d_is_dir entry) entries
          \<and> \<not> os_path_islink w (os_path_join d n)
          \<and> descends w (os_path_join d n) rel)"

definition listed_file :: "world \<Rightarrow> path \<Rightarrow> name \<Rightarrow> bool" where
  "listed_file w d n =
     (case os_scandir w d of
        Inl e \<Rightarrow> False
      | Inr entries \<Rightarrow> list_ex (\<lambda>entry. d_name entry = n \<and> \<not> d_is_dir entry) entries)"

text \<open>No directory lists a name twice.\<close>

definition names_distinct :: "world \<Rightarrow> bool" where
  "names_distinct w = (\<forall>p entries. os_scandir w p = Inr entries \<longrightarrow> distinct (map d_name entries))"

text \<open>The lines a run has printed and the paths it has handed to \<^verbatim>\<open>open\<close>.\<close>

definition emitted :: "world \<Rightarrow> world \<Rightarrow> path list" where
  "emitted w w' = drop (length (stdout w)) (stdout w')"

definition newly_opened :: "world \<Rightarrow> world \<Rightarrow> path list" where
  "newly_opened w w' = drop (length (opened w)) (opened w')"

text \<open>Two worlds hold the same tree: the same files, links and standard output
  encoding, and in every directory the same entries, in whatever order.\<close>

definition same_listing :: "exn + dirent list \<Rightarrow> exn + dirent list \<Rightarrow> bool" where
  "same_listing a b =
     (case (a, b) of
        (Inl e, Inl e') \<Rightarrow> True
      | (Inr es, Inr es') \<Rightarrow> set es = set es'
      | _ \<Rightarrow> False)"

definition same_tree :: "world \<Rightarrow> world \<Rightarrow> bool" where
  "same_tree w v =
     (files w = files v \<and> symlinks w = symlinks v \<and> print_error w = print_error v
      \<and> (\<forall>p. same_listing (dir_entries w p) (dir_entries v p)))"

text \<open>\<open>hangs w p\<close>: opening and reading \<open>p\<close> never returns. \<open>no_blocking w rt\<close>: no
  candidate below the root does that. \<open>returns w rt\<close>: the run returns, given fuel
  enough.\<close>

definition hangs :: "world \<Rightarrow> path \<Rightarrow> bool" where
  "hangs w p = blocks (files w p)"

definition no_blocking :: "world \<Rightarrow> path \<Rightarrow> bool" where
  "no_blocking w rt =
     (\<forall>rel n. descends w rt rel \<and> listed_file w (rt @ rel) n \<and> endswith n exts
        \<longrightarrow> \<not> hangs w (rt @ rel @ [n]))"

definition returns :: "world \<Rightarrow> path \<Rightarrow> bool" where
  "returns w rt = (\<exists>fuel res. scan fuel w rt = Some res)"

subsection \<open>The run as a function of the world\<close>

text \<open>
  What a run does, read off the world: \<open>reportable\<close> is a path that opens, reads and
  starts with the mark; \<open>line_of\<close> is the line one turn of the inner loop prints (none or
  one), \<open>cand_of\<close> the path it hands to \<^verbatim>\<open>open\<close> (none or one) and \<open>read_of\<close> the path
  it reads (none or one); \<open>after\<close> is the world with a log and lines appended and
  accesses recorded; \<open>dirnames\<close>, \<open>filenames\<close> and \<open>sub_walk\<close> name the parts of
  \<open>os_walk\<close>; \<open>reported\<close> is a relative path that a run prints. The lemmas below prove
  that \<open>check_file\<close>, the loops and \<open>scan\<close> compute these.
\<close>

definition reportable :: "world \<Rightarrow> path \<Rightarrow> bool" where
  "reportable w p =
     (behaviour (files w p) = Readable \<and> startswith (data (files w p)) BOM)"

definition line_of :: "world \<Rightarrow> path \<Rightarrow> path \<Rightarrow> name \<Rightarrow> path list" where
  "line_of w rt d n =
     (if endswith n exts \<and> reportable w (os_path_join d n) then
        (case os_path_relpath (os_path_join d n) rt of
           Inl e \<Rightarrow> []
         | Inr rel \<Rightarrow> if print_error w rel = None then [rel] else [])
      else [])"

definition cand_of :: "path \<Rightarrow> name \<Rightarrow> path list" where
  "cand_of d n = (if endswith n exts then [os_path_join d n] else [])"

definition read_of :: "world \<Rightarrow> path \<Rightarrow> name \<Rightarrow> path list" where
  "read_of w d n =
     (if endswith n exts \<and> behaviour (files w (os_path_join d n)) = Readable
      then [os_path_join d n] else [])"

definition accessed_all :: "world \<Rightarrow> path list \<Rightarrow> world" where
  "accessed_all w ps =
     w\<lparr>stat := (\<lambda>p. if p \<in> set ps then (stat w p)\<lparr>st_atime := atime_on_access w p\<rparr>
                     else stat w p)\<rparr>"

definition after :: "world \<Rightarrow> path list \<Rightarrow> path list \<Rightarrow> path list \<Rightarrow> world" where
  "after w log out acc =
     (accessed_all w acc)\<lparr>opened := opened w @ log, stdout := stdout w @ out\<rparr>"

definition print_lines :: "world \<Rightarrow> path \<Rightarrow> path \<Rightarrow> path list" where
  "print_lines w rt p =
     (case os_path_relpath p rt of
        Inl e \<Rightarrow> []
      | Inr rel \<Rightarrow> if print_error w rel = None then [rel] else [])"

definition item_cands :: "walk_item \<Rightarrow> path list" where
  "item_cands item = (case item of (d, ds, ns) \<Rightarrow> concat (map (cand_of d) ns))"

definition item_lines :: "world \<Rightarrow> path \<Rightarrow> walk_item \<Rightarrow> path list" where
  "item_lines w rt item = (case item of (d, ds, ns) \<Rightarrow> concat (map (line_of w rt d) ns))"

definition item_reads :: "world \<Rightarrow> walk_item \<Rightarrow> path list" where
  "item_reads w item = (case item of (d, ds, ns) \<Rightarrow> concat (map (read_of w d) ns))"

definition dirnames :: "dirent list \<Rightarrow> name list" where
  "dirnames entries = map d_name (filter d_is_dir entries)"

definition filenames :: "dirent list \<Rightarrow> name list" where
  "filenames entries = map d_name (filter (\<lambda>entry. \<not> d_is_dir entry) entries)"

definition sub_walk :: "nat \<Rightarrow> world \<Rightarrow> path \<Rightarrow> bool \<Rightarrow> name \<Rightarrow> walk_item list option" where
  "sub_walk fuel w topdir followlinks dirname =
     (if followlinks \<or> \<not> os_path_islink w (os_path_join topdir dirname)
      then os_walk fuel w (os_path_join topdir dirname) followlinks else Some [])"

definition reported :: "world \<Rightarrow> path \<Rightarrow> path \<Rightarrow> bool" where
  "reported w rt l =
     (l \<noteq> [] \<and> descends w rt (butlast l) \<and> listed_file w (rt @ butlast l) (last l)
      \<and> endswith (last l) exts \<and> reportable w (rt @ l) \<and> print_error w l = None)"

subsection \<open>Example worlds\<close>

text \<open>
  The tree of the specification's scenario, with more: \<^verbatim>\<open>a.json\<close> (mark, then \<^verbatim>\<open>{}\<close>),
  \<^verbatim>\<open>b.ts\<close> (no mark), \<^verbatim>\<open>c.txt\<close> (mark, extension not recognised),
  \<^verbatim>\<open>sub/d.yaml\<close> (mark), \<^verbatim>\<open>e.js\<close> (mark, permission denied), \<^verbatim>\<open>f.yml\<close> (two bytes),
  \<^verbatim>\<open>g.mjs\<close> (mark, a name standard output cannot encode), and \<^verbatim>\<open>sub/loop\<close>, a symbolic
  link to the root: every path \<^verbatim>\<open>sub/loop/sub/loop/...\<close> lists a directory again. No
  path blocks.
\<close>

fun unloop :: "path \<Rightarrow> path" where
  "unloop (x # y # rel) = (if x = ''sub'' \<and> y = ''loop'' then unloop rel else x # y # rel)"
| "unloop rel = rel"

definition ex_entries :: "path \<Rightarrow> exn + dirent list" where
  "ex_entries rel =
     (if rel = [] then
        Inr [\<lparr>d_name = ''e.js'', d_is_dir = False\<rparr>,
             \<lparr>d_name = ''a.json'', d_is_dir = False\<rparr>,
             \<lparr>d_name = ''b.ts'', d_is_dir = False\<rparr>,
             \<lparr>d_name = ''c.txt'', d_is_dir = False\<rparr>,
             \<lparr>d_name = ''sub'', d_is_dir = True\<rparr>,
             \<lparr>d_name = ''f.yml'', d_is_dir = False\<rparr>,
             \<lparr>d_name = ''g.mjs'', d_is_dir = False\<rparr>]
      else if rel = [''sub''] then
        Inr [\<lparr>d_name = ''d.yaml'', d_is_dir = False\<rparr>,
             \<lparr>d_name = ''loop'', d_is_dir = True\<rparr>]
      else Inl NotADirectoryError)"

definition ex_file :: "path \<Rightarrow> fileobj" where
  "ex_file rel =
     (if rel = [''a.json''] then
        \<lparr>data = [0xEF, 0xBB, 0xBF, 0x7B, 0x7D], behaviour = Readable\<rparr>
      else if rel = [''b.ts''] then
        \<lparr>data = [0x65, 0x78, 0x70, 0x6F, 0x72, 0x74], behaviour = Readable\<rparr>
      else if rel = [''c.txt''] then
        \<lparr>data = [0xEF, 0xBB, 0xBF], behaviour = Readable\<rparr>
      else if rel = [''sub'', ''d.yaml''] then
        \<lparr>data = [0xEF, 0xBB, 0xBF, 0x61], behaviour = Readable\<rparr>
      else if rel = [''e.js''] then
        \<lparr>data = [0xEF, 0xBB, 0xBF, 0x31], behaviour = Open_raises PermissionError\<rparr>
      else if rel = [''f.yml''] then
        \<lparr>data = [0xEF, 0xBB], behaviour = Readable\<rparr>
      else if rel = [''g.mjs''] then
        \<lparr>data = [0xEF, 0xBB, 0xBF], behaviour = Readable\<rparr>
      else \<lparr>data = [], behaviour = Open_raises IsADirectoryError\<rparr>)"

text \<open>Every path was last accessed at time 100; an access now is recorded as 200.\<close>

definition ex_world :: world where
  "ex_world =
     \<lparr>dir_entries = (\<lambda>p. if prefix root p then ex_entries (unloop (drop (length root) p))
                          else Inl FileNotFoundError),
      symlinks = (\<lambda>p. p \<noteq> [] \<and> last p = ''loop''),
      files = (\<lambda>p. ex_file (unloop (drop (length root) p))),
      stat = (\<lambda>p. \<lparr>st_mode = 0, st_size = 0, st_mtime = 100, st_atime = 100\<rparr>),
      atime_on_access = (\<lambda>p. 200),
      print_error = (\<lambda>line. if line = [''g.mjs''] then Some UnicodeEncodeError else None),
      opened = [],
      stdout = []\<rparr>"

text \<open>The world in which the root does not exist.\<close>

definition missing_world :: world where
  "missing_world =
     \<lparr>dir_entries = (\<lambda>p. Inl FileNotFoundError),
      symlinks = (\<lambda>p. False),
      files = (\<lambda>p. \<lparr>data = [], behaviour = Open_raises FileNotFoundError\<rparr>),
      stat = (\<lambda>p. \<lparr>st_mode = 0, st_size = 0, st_mtime = 0, st_atime = 0\<rparr>),
      atime_on_access = (\<lambda>p. 0),
      print_error = (\<lambda>line. None),
      opened = [],
      stdout = []\<rparr>"

text \<open>The world whose root holds one entry, \<^verbatim>\<open>pipe.json\<close>, a named pipe that no writer
  has opened: no directory below the root, no link.\<close>

definition fifo_world :: world where
  "fifo_world =
     \<lparr>dir_entries = (\<lambda>p. if p = root then Inr [\<lparr>d_name = ''pipe.json'', d_is_dir = False\<rparr>]
                          else Inl NotADirectoryError),
      symlinks = (\<lambda>p. False),
      files = (\<lambda>p. \<lparr>data = [], behaviour = Open_blocks\<rparr>),
      stat = (\<lambda>p. \<lparr>st_mode = 0, st_size = 0, st_mtime = 0, st_atime = 0\<rparr>),
      atime_on_access = (\<lambda>p. 0),
      print_error = (\<lambda>line. None),
      opened = [],
      stdout = []\<rparr>"

text \<open>What \<open>os_walk\<close> yields in the example world, and the world its run leaves: the
  two directories listed and the five files read have the new access time.\<close>

definition ex_items :: "walk_item list" where
  "ex_items =
     [(root, [''sub''], [''e.js'', ''a.json'', ''b.ts'', ''c.txt'', ''f.yml'', ''g.mjs'']),
      (root @ [''sub''], [''loop''], [''d.yaml''])]"

definition ex_accessed :: "path list" where
  "ex_accessed =
     [root, root @ [''sub''], root @ [''a.json''], root @ [''b.ts''], root @ [''f.yml''],
      root @ [''g.mjs''], root @ [''sub'', ''d.yaml'']]"

definition ex_final :: world where
  "ex_final =
     ex_world\<lparr>stat := (\<lambda>p. if p \<in> set ex_accessed
                            then \<lparr>st_mode = 0, st_size = 0, st_mtime = 100, st_atime = 200\<rparr>
                            else \<lparr>st_mode = 0, st_size = 0, st_mtime = 100, st_atime = 100\<rparr>),
              opened := [root @ [''e.js''], root @ [''a.json''], root @ [''b.ts''],
                          root @ [''f.yml''], root @ [''g.mjs''], root @ [''sub'', ''d.yaml'']],
              stdout := [[''a.json''], [''sub'', ''d.yaml'']]\<rparr>"

text \<open>The world the example run leaves, with every listing in the opposite order.\<close>

definition ex_reordered :: world where
  "ex_reordered = ex_final\<lparr>dir_entries := (\<lambda>p. map_sum id rev (dir_entries ex_final p))\<rparr>"

section \<open>Properties\<close>

subsection \<open>One turn, the loops and the program\<close>

lemma startswith_take: "startswith (take (length pre) bs) pre = startswith bs pre"
  unfolding startswith_def
proof
  assume "prefix pre (take (length pre) bs)"
  moreover have "prefix (take (length pre) bs) bs"
    by (rule take_is_prefix)
  ultimately show "prefix pre bs"
    by (rule prefix_order.trans)
next
  assume "prefix pre bs"
  then obtain zs where "bs = pre @ zs"
    by (auto simp: prefix_def)
  then show "prefix pre (take (length pre) bs)"
    by simp
qed

lemma length_BOM: "length BOM = 3"
  by (simp add: BOM_def)

lemma startswith_take3: "startswith (take 3 bs) BOM = startswith bs BOM"
  using startswith_take [of BOM bs] by (simp add: length_BOM)

lemma behaviour_errors:
  "open_error f = Some e \<longleftrightarrow> behaviour f = Open_raises e"
  "read_error f = Some e \<longleftrightarrow> behaviour f = Read_raises e"
  "behaviour f = Readable \<longleftrightarrow> open_error f = None \<and> read_error f = None \<and> \<not> blocks f"
  by (cases "behaviour f"; simp add: open_error_def read_error_def blocks_def)+

lemma accessed_all_nil [simp]: "accessed_all w [] = w"
  by (simp add: accessed_all_def)

lemma accessed_single: "accessed w p = accessed_all w [p]"
  by (auto simp: accessed_def accessed_all_def intro!: arg_cong [where f = "\<lambda>s. w\<lparr>stat := s\<rparr>"])

lemma accessed_all_fields [simp]:
  "files (accessed_all w ps) = files w"
  "dir_entries (accessed_all w ps) = dir_entries w"
  "symlinks (accessed_all w ps) = symlinks w"
  "print_error (accessed_all w ps) = print_error w"
  "atime_on_access (accessed_all w ps) = atime_on_access w"
  "opened (accessed_all w ps) = opened w"
  "stdout (accessed_all w ps) = stdout w"
  by (simp_all add: accessed_all_def)

lemma stat_accessed_all:
  "stat (accessed_all w ps) p =
     (if p \<in> set ps then (stat w p)\<lparr>st_atime := atime_on_access w p\<rparr> else stat w p)"
  by (simp add: accessed_all_def)

lemma accessed_all_append: "accessed_all (accessed_all w a) b = accessed_all w (a @ b)"
  by (auto simp: accessed_all_def intro!: arg_cong [where f = "\<lambda>s. w\<lparr>stat := s\<rparr>"])

lemma accessed_dirs_all: "accessed_dirs w items = accessed_all w (map fst items)"
  by (induction w items rule: accessed_dirs.induct)
     (simp_all add: accessed_single accessed_all_append)

lemma after_nil [simp]: "after w [] [] [] = w"
  by (simp add: after_def)

lemma after_fields [simp]:
  "files (after w l out acc) = files w"
  "dir_entries (after w l out acc) = dir_entries w"
  "symlinks (after w l out acc) = symlinks w"
  "print_error (after w l out acc) = print_error w"
  "atime_on_access (after w l out acc) = atime_on_access w"
  "opened (after w l out acc) = opened w @ l"
  "stdout (after w l out acc) = stdout w @ out"
  by (simp_all add: after_def)


lemma after_after [simp]:
  "after (after w l1 o1 a1) l2 o2 a2 = after w (l1 @ l2) (o1 @ o2) (a1 @ a2)"
  by (auto simp: after_def accessed_all_def
      intro!: arg_cong [where f = "\<lambda>s. w\<lparr>stat := s, opened := opened w @ l1 @ l2, stdout := stdout w @ o1 @ o2\<rparr>"])

lemma after_accessed_all: "after (accessed_all w a) l out acc = after w l out (a @ acc)"
  by (simp add: after_def accessed_all_append)


lemma after_log: "w\<lparr>opened := opened w @ [p]\<rparr> = after w [p] [] []"
  by (simp add: after_def)

lemma after_acc: "accessed_all w a = after w [] [] a"
  by (simp add: after_def)

lemma accessed_after: "accessed (after w l out acc) p = after w l out (acc @ [p])"
  by (simp add: accessed_single after_acc)

lemma hangs_after [simp]: "hangs (after w l out acc) = hangs w"
  by (rule ext) (simp add: hangs_def)

lemma reportable_after [simp]: "reportable (after w l out acc) = reportable w"
  by (rule ext) (simp add: reportable_def)

lemma line_of_same:
  "files v = files w \<Longrightarrow> print_error v = print_error w \<Longrightarrow> line_of v rt d n = line_of w rt d n"
  by (simp add: line_of_def reportable_def split: sum.splits)

lemma line_of_after [simp]: "line_of (after w l out acc) rt d = line_of w rt d"
  by (rule ext, rule line_of_same) simp_all

lemma read_of_after [simp]: "read_of (after w l out acc) d = read_of w d"
  by (rule ext) (simp add: read_of_def)

lemma line_of_alt:
  "line_of w rt d n =
     (if endswith n exts \<and> reportable w (os_path_join d n)
      then print_lines w rt (os_path_join d n) else [])"
  by (simp add: line_of_def print_lines_def)

lemma open_rb_eq:
  "open_rb w p =
     (case behaviour (files w p) of
        Open_blocks \<Rightarrow> None
      | Open_raises e \<Rightarrow> Some (Inl e, after w [p] [] [])
      | _ \<Rightarrow> Some (Inr (files w p), after w [p] [] []))"
  by (simp add: open_rb_def after_log split: behaviour.splits)

lemma read_eq:
  "read (after w l out acc) p f n =
     (case behaviour f of
        Read_blocks \<Rightarrow> None
      | Read_raises e \<Rightarrow> Some (Inl e, after w l out acc)
      | _ \<Rightarrow> Some (Inr (take n (data f)), after w l out (acc @ [p])))"
  by (simp add: read_def accessed_after split: behaviour.splits)

lemma py_print_eq:
  "py_print (after w l out acc) line =
     (case print_error w line of
        Some e \<Rightarrow> (Inl e, after w l out acc)
      | None \<Rightarrow> (Inr (), after w l (out @ [line]) acc))"
proof -
  have "(after w l out acc)\<lparr>stdout := stdout (after w l out acc) @ [line]\<rparr>
      = after w l (out @ [line]) acc"
    by (simp add: after_def)
  then show ?thesis
    by (simp add: py_print_def split: option.splits)
qed

lemma try_body_hangs: "hangs w p \<Longrightarrow> try_body w rt p = None"
  by (auto simp: try_body_def open_rb_eq read_eq hangs_def blocks_def)

lemma try_body_raises:
  "behaviour (files w p) = Open_raises e \<or> behaviour (files w p) = Read_raises e \<Longrightarrow>
     try_body w rt p = Some (Inl e, after w [p] [] [])"
  by (auto simp: try_body_def open_rb_eq read_eq)

lemma try_body_readable:
  assumes "behaviour (files w p) = Readable"
  shows "\<exists>r. try_body w rt p
           = Some (r, after w [p] (if reportable w p then print_lines w rt p else []) [p])"
proof (cases "startswith (data (files w p)) BOM")
  case False
  with assms show ?thesis
    by (simp add: try_body_def open_rb_eq read_eq startswith_take3 reportable_def)
next
  case True
  with assms have rp: "reportable w p"
    by (simp add: reportable_def)
  show ?thesis
  proof (cases "os_path_relpath p rt")
    case (Inl e)
    with assms True rp show ?thesis
      by (simp add: try_body_def open_rb_eq read_eq startswith_take3 print_lines_def)
  next
    case (Inr rel)
    with assms True rp show ?thesis
      by (cases "print_error w rel")
         (simp_all add: try_body_def open_rb_eq read_eq startswith_take3 print_lines_def
            py_print_eq)
  qed
qed

lemma check_file_eq:
  "check_file w rt d n =
     (if endswith n exts \<and> hangs w (os_path_join d n) then None
      else Some (Inr (), after w (cand_of d n) (line_of w rt d n) (read_of w d n)))"
proof (cases "endswith n exts")
  case False
  then show ?thesis
    by (simp add: check_file_def cand_of_def line_of_alt read_of_def)
next
  case True
  let ?p = "os_path_join d n"
  show ?thesis
  proof (cases "behaviour (files w ?p)")
    case Readable
    from try_body_readable [OF this, of rt] obtain r where
      "try_body w rt ?p
         = Some (r, after w [?p] (if reportable w ?p then print_lines w rt ?p else []) [?p])"
      by blast
    with True Readable show ?thesis
      by (cases r)
         (simp_all add: check_file_def cand_of_def line_of_alt read_of_def hangs_def blocks_def)
  next
    case (Open_raises e)
    with True try_body_raises [of w ?p e rt] show ?thesis
      by (simp add: check_file_def cand_of_def line_of_alt read_of_def hangs_def blocks_def
          reportable_def)
  next
    case Open_blocks
    with True try_body_hangs [of w ?p rt] show ?thesis
      by (simp add: check_file_def hangs_def blocks_def)
  next
    case (Read_raises e)
    with True try_body_raises [of w ?p e rt] show ?thesis
      by (simp add: check_file_def cand_of_def line_of_alt read_of_def hangs_def blocks_def
          reportable_def)
  next
    case Read_blocks
    with True try_body_hangs [of w ?p rt] show ?thesis
      by (simp add: check_file_def hangs_def blocks_def)
  qed
qed

lemma for_names_eq:
  "for_names w rt d ns =
     (if list_ex (hangs w) (concat (map (cand_of d) ns)) then None
      else Some (Inr (), after w (concat (map (cand_of d) ns))
                   (concat (map (line_of w rt d) ns)) (concat (map (read_of w d) ns))))"
proof (induction ns arbitrary: w)
  case Nil
  then show ?case by simp
next
  case (Cons n ns)
  show ?case
  proof (cases "endswith n exts \<and> hangs w (os_path_join d n)")
    case True
    then show ?thesis
      by (simp add: check_file_eq cand_of_def)
  next
    case False
    then have "\<not> list_ex (hangs w) (cand_of d n)"
      by (auto simp: cand_of_def)
    moreover from False have "check_file w rt d n
        = Some (Inr (), after w (cand_of d n) (line_of w rt d n) (read_of w d n))"
      by (simp add: check_file_eq)
    ultimately show ?thesis
      by (simp add: Cons.IH)
  qed
qed

lemma item_lines_after [simp]: "item_lines (after w l out acc) rt = item_lines w rt"
  by (rule ext) (simp add: item_lines_def split: prod.splits)

lemma item_reads_after [simp]: "item_reads (after w l out acc) = item_reads w"
  by (rule ext) (simp add: item_reads_def split: prod.splits)

lemma for_items_eq:
  "for_items w rt items =
     (if list_ex (hangs w) (concat (map item_cands items)) then None
      else Some (Inr (), after w (concat (map item_cands items))
                   (concat (map (item_lines w rt) items)) (concat (map (item_reads w) items))))"
proof (induction items arbitrary: w)
  case Nil
  then show ?case by simp
next
  case (Cons item items)
  obtain d ds ns where item: "item = (d, ds, ns)"
    by (cases item)
  have u: "item_cands (d, ds, ns) = concat (map (cand_of d) ns)"
    "item_lines w rt (d, ds, ns) = concat (map (line_of w rt d) ns)"
    "item_reads w (d, ds, ns) = concat (map (read_of w d) ns)"
    by (simp_all add: item_cands_def item_lines_def item_reads_def)
  show ?case
  proof (cases "list_ex (hangs w) (item_cands item)")
    case True
    with item show ?thesis
      by (simp add: for_names_eq u)
  next
    case False
    with item show ?thesis
      by (simp add: for_names_eq Cons.IH u)
  qed
qed

text \<open>The program: it returns when the walk returns and no candidate blocks, and then
  without an exception, in the world \<open>after\<close>.\<close>

lemma scan_eq:
  "scan fuel w rt =
     (case os_walk fuel w rt False of
        None \<Rightarrow> None
      | Some items \<Rightarrow>
          if list_ex (hangs w) (concat (map item_cands items)) then None
          else Some (Inr (), after w (concat (map item_cands items))
                       (concat (map (item_lines w rt) items))
                       (map fst items @ concat (map (item_reads w) items))))"
proof (cases "os_walk fuel w rt False")
  case None
  then show ?thesis by (simp add: scan_def)
next
  case (Some items)
  have "for_items (after w [] [] (map fst items)) rt items =
     (if list_ex (hangs w) (concat (map item_cands items)) then None
      else Some (Inr (), after w (concat (map item_cands items))
                   (concat (map (item_lines w rt) items))
                   (map fst items @ concat (map (item_reads w) items))))"
    by (simp add: for_items_eq)
  with Some show ?thesis
    by (simp add: scan_def accessed_dirs_all after_acc)
qed


subsection \<open>Relative paths below the root\<close>

lemma commonprefix_append: "commonprefix rt (rt @ rel) = rt"
  by (induction rt) simp_all

lemma relpath_under: "rel \<noteq> [] \<Longrightarrow> os_path_relpath (rt @ rel) rt = Inr rel"
  by (simp add: os_path_relpath_def commonprefix_append Let_def)

subsection \<open>The walk\<close>

lemma os_walk_Inl: "os_scandir w t = Inl e \<Longrightarrow> os_walk (Suc k) w t fl = Some []"
  by (simp add: os_walk.simps)

lemma os_walk_Inr:
  "os_scandir w t = Inr es \<Longrightarrow>
   os_walk (Suc k) w t fl =
     (case those (map (sub_walk k w t fl) (dirnames es)) of
        None \<Rightarrow> None
      | Some rest \<Rightarrow> Some ((t, dirnames es, filenames es) # concat rest))"
  unfolding dirnames_def filenames_def sub_walk_def
  by (simp add: Let_def comp_def)

declare os_walk.simps(2) [simp del]

lemma those_map_Some:
  "those (map f xs) = Some rs \<longleftrightarrow>
     (\<forall>x\<in>set xs. f x \<noteq> None) \<and> rs = map (\<lambda>x. the (f x)) xs"
proof (induction xs arbitrary: rs)
  case Nil
  then show ?case by auto
next
  case (Cons x xs)
  show ?case
  proof (cases "f x")
    case None
    then show ?thesis by auto
  next
    case (Some y)
    then show ?thesis
      using Cons.IH by (cases "those (map f xs)") auto
  qed
qed

lemma those_map_not_None:
  "(\<And>x. x \<in> set xs \<Longrightarrow> f x \<noteq> None) \<Longrightarrow> those (map f xs) \<noteq> None"
  by (induction xs) (auto split: option.splits)

text \<open>The shape of a finished walk.\<close>

lemma os_walk_cases:
  assumes "os_walk k w t fl = Some items"
  obtains (error) e k' where "k = Suc k'" "os_scandir w t = Inl e" "items = []"
  | (listed) es k' where "k = Suc k'" "os_scandir w t = Inr es"
      "\<And>n. n \<in> set (dirnames es) \<Longrightarrow> sub_walk k' w t fl n \<noteq> None"
      "items = (t, dirnames es, filenames es)
               # concat (map (\<lambda>n. the (sub_walk k' w t fl n)) (dirnames es))"
proof (cases k)
  case 0
  with assms show ?thesis by simp
next
  case (Suc k')
  show ?thesis
  proof (cases "os_scandir w t")
    case (Inl e)
    with assms Suc show ?thesis by (auto simp: os_walk_Inl intro: error)
  next
    case (Inr es)
    with assms Suc obtain rest where
      r: "those (map (sub_walk k' w t fl) (dirnames es)) = Some rest"
      and i: "items = (t, dirnames es, filenames es) # concat rest"
      by (auto simp: os_walk_Inr split: option.splits)
    from r have n: "\<And>n. n \<in> set (dirnames es) \<Longrightarrow> sub_walk k' w t fl n \<noteq> None"
      and m: "rest = map (\<lambda>n. the (sub_walk k' w t fl n)) (dirnames es)"
      by (simp_all add: those_map_Some)
    from Suc Inr n i [unfolded m] show ?thesis by (rule listed)
  qed
qed

lemma in_dirnames: "n \<in> set (dirnames es) \<longleftrightarrow> list_ex (\<lambda>entry. d_name entry = n \<and> d_is_dir entry) es"
  by (auto simp: dirnames_def list_ex_iff)

lemma in_filenames: "n \<in> set (filenames es) \<longleftrightarrow> list_ex (\<lambda>entry. d_name entry = n \<and> \<not> d_is_dir entry) es"
  by (auto simp: filenames_def list_ex_iff)

lemma sub_walk_False:
  "sub_walk k w t False n = Some r \<Longrightarrow> x \<in> set r \<Longrightarrow>
     \<not> os_path_islink w (os_path_join t n) \<and> os_walk k w (os_path_join t n) False = Some r"
  by (auto simp: sub_walk_def split: if_splits)

text \<open>Every directory the walk yields is reached through listed directories that are
  no links, and is yielded with the names of its own listing.\<close>

lemma os_walk_sound:
  "os_walk k w t False = Some items \<Longrightarrow> (d, ds, ns) \<in> set items \<Longrightarrow>
     \<exists>rel es. d = t @ rel \<and> descends w t rel \<and> os_scandir w d = Inr es
              \<and> ds = dirnames es \<and> ns = filenames es"
proof (induction k arbitrary: t items)
  case 0
  then show ?case by simp
next
  case (Suc k)
  from Suc.prems(1) show ?case
  proof (cases rule: os_walk_cases)
    case (error e k')
    with Suc.prems(2) show ?thesis by simp
  next
    case (listed es k')
    show ?thesis
    proof (cases "(d, ds, ns) = (t, dirnames es, filenames es)")
      case True
      with listed(2) have "d = t @ [] \<and> descends w t [] \<and> os_scandir w d = Inr es
          \<and> ds = dirnames es \<and> ns = filenames es"
        by simp
      then show ?thesis by blast
    next
      case False
      with Suc.prems(2) listed(4) obtain n where n: "n \<in> set (dirnames es)"
        and m: "(d, ds, ns) \<in> set (the (sub_walk k' w t False n))"
        by auto
      from listed(3) [OF n] obtain r where r: "sub_walk k' w t False n = Some r"
        by auto
      with m have mr: "(d, ds, ns) \<in> set r"
        by simp
      from sub_walk_False [OF r mr] have nl: "\<not> os_path_islink w (os_path_join t n)"
        and wk: "os_walk k' w (os_path_join t n) False = Some r"
        by simp_all
      from listed(1) have "k' = k" by simp
      with Suc.IH [OF _ mr] wk obtain rel es' where
        "d = os_path_join t n @ rel" "descends w (os_path_join t n) rel"
        "os_scandir w d = Inr es'" "ds = dirnames es'" "ns = filenames es'"
        by blast
      with n nl listed(2) have "d = t @ (n # rel) \<and> descends w t (n # rel)
          \<and> os_scandir w d = Inr es' \<and> ds = dirnames es' \<and> ns = filenames es'"
        by (simp add: os_path_join_def in_dirnames)
      then show ?thesis by blast
    qed
  qed
qed

text \<open>Every such directory whose listing succeeds is yielded.\<close>

lemma os_walk_complete:
  "os_walk k w t False = Some items \<Longrightarrow> descends w t rel \<Longrightarrow>
   os_scandir w (t @ rel) = Inr es \<Longrightarrow>
     (t @ rel, dirnames es, filenames es) \<in> set items"
proof (induction k arbitrary: t items rel)
  case 0
  then show ?case by simp
next
  case (Suc k)
  from Suc.prems(1) show ?case
  proof (cases rule: os_walk_cases)
    case (error e k')
    with Suc.prems(2,3) show ?thesis by (cases rel) auto
  next
    case (listed es0 k')
    show ?thesis
    proof (cases rel)
      case Nil
      with listed Suc.prems(3) show ?thesis by simp
    next
      case (Cons n rel')
      with Suc.prems(2) listed(2) have n: "n \<in> set (dirnames es0)"
        and nl: "\<not> os_path_islink w (os_path_join t n)"
        and ds: "descends w (os_path_join t n) rel'"
        by (simp_all add: in_dirnames)
      from listed(3) [OF n] obtain r where r: "sub_walk k' w t False n = Some r"
        by auto
      with nl have wk: "os_walk k' w (os_path_join t n) False = Some r"
        by (simp add: sub_walk_def)
      from listed(1) have k: "k' = k" by simp
      from Suc.prems(3) Cons have "os_scandir w (os_path_join t n @ rel') = Inr es"
        by (simp add: os_path_join_def)
      from Suc.IH [OF wk [unfolded k] ds this]
      have "(t @ rel, dirnames es, filenames es) \<in> set r"
        by (simp add: os_path_join_def Cons)
      with n r listed(4) show ?thesis
        by force
    qed
  qed
qed

lemma distinct_concat_map_key:
  assumes "distinct (map g xs)"
    and "\<And>x. x \<in> set xs \<Longrightarrow> distinct (f x)"
    and "\<And>x l. x \<in> set xs \<Longrightarrow> l \<in> set (f x) \<Longrightarrow> key l = g x"
  shows "distinct (concat (map f xs))"
  using assms
proof (induction xs)
  case Nil
  then show ?case by simp
next
  case (Cons x xs)
  have "set (f x) \<inter> set (concat (map f xs)) = {}"
  proof (rule ccontr)
    assume "set (f x) \<inter> set (concat (map f xs)) \<noteq> {}"
    then obtain l y where l: "l \<in> set (f x)" and y: "y \<in> set xs" and ly: "l \<in> set (f y)"
      by auto
    from Cons.prems(3) [of x l] l have "key l = g x" by simp
    moreover from Cons.prems(3) [of y l] y ly have "key l = g y" by simp
    ultimately have "g x \<in> g ` set xs" using y by (metis image_eqI)
    with Cons.prems(1) show False by simp
  qed
  moreover have "distinct (concat (map f xs))"
    using Cons by simp
  moreover have "distinct (f x)"
    using Cons.prems(2) by simp
  ultimately show ?case by simp
qed

lemma sub_walk_item:
  assumes "sub_walk k w t False n = Some r" and "(d, ds, ns) \<in> set r"
  shows "\<exists>rel. d = t @ n # rel"
proof -
  from sub_walk_False [OF assms] have "os_walk k w (os_path_join t n) False = Some r"
    by simp
  from os_walk_sound [OF this assms(2)] show ?thesis
    by (auto simp: os_path_join_def)
qed

lemma distinct_dirnames: "distinct (map d_name es) \<Longrightarrow> distinct (dirnames es)"
  by (simp add: dirnames_def distinct_map_filter)

lemma distinct_filenames: "distinct (map d_name es) \<Longrightarrow> distinct (filenames es)"
  by (simp add: filenames_def distinct_map_filter)

text \<open>No directory is yielded twice.\<close>

lemma os_walk_distinct:
  "names_distinct w \<Longrightarrow> os_walk k w t False = Some items \<Longrightarrow> distinct (map fst items)"
proof (induction k arbitrary: t items)
  case 0
  then show ?case by simp
next
  case (Suc k)
  from Suc.prems(2) show ?case
  proof (cases rule: os_walk_cases)
    case (error e k')
    then show ?thesis by simp
  next
    case (listed es k')
    let ?h = "\<lambda>n. the (sub_walk k' w t False n)"
    from listed(1) have k: "k' = k" by simp
    have sub: "\<exists>rel. fst x = t @ n # rel" if "n \<in> set (dirnames es)" "x \<in> set (?h n)" for n x
    proof -
      from listed(3) [OF that(1)] obtain r where r: "sub_walk k' w t False n = Some r"
        by auto
      with that(2) have "(fst x, fst (snd x), snd (snd x)) \<in> set r" by simp
      from sub_walk_item [OF r this] show ?thesis .
    qed
    have d1: "distinct (map fst (?h n))" if "n \<in> set (dirnames es)" for n
    proof -
      from listed(3) [OF that] obtain r where r: "sub_walk k' w t False n = Some r"
        by auto
      show ?thesis
      proof (cases "r = []")
        case True
        with r show ?thesis by simp
      next
        case False
        then obtain x where "x \<in> set r" by (cases r) auto
        from sub_walk_False [OF r this]
        have "os_walk k w (os_path_join t n) False = Some r"
          by (simp add: k)
        from Suc.IH [OF Suc.prems(1) this] r show ?thesis by simp
      qed
    qed
    from Suc.prems(1) listed(2) have "distinct (dirnames es)"
      by (simp add: names_distinct_def distinct_dirnames)
    then have "distinct (map (\<lambda>n. n) (dirnames es))" by simp
    then have "distinct (concat (map (\<lambda>n. map fst (?h n)) (dirnames es)))"
    proof (rule distinct_concat_map_key [where key = "\<lambda>p. p ! length t"])
      fix n assume "n \<in> set (dirnames es)"
      then show "distinct (map fst (?h n))" by (rule d1)
    next
      fix n l assume n: "n \<in> set (dirnames es)" and "l \<in> set (map fst (?h n))"
      then obtain x where x: "x \<in> set (?h n)" and lx: "l = fst x" by auto
      from sub [OF n x] obtain rel where "fst x = t @ n # rel" by blast
      with lx show "l ! length t = n" by (simp add: nth_append)
    qed
    then have rest: "distinct (map fst (concat (map ?h (dirnames es))))"
      by (simp add: map_concat comp_def)
    have "t \<notin> fst ` set (concat (map ?h (dirnames es)))"
    proof
      assume "t \<in> fst ` set (concat (map ?h (dirnames es)))"
      then obtain x n where n: "n \<in> set (dirnames es)" and x: "x \<in> set (?h n)"
        and tx: "t = fst x"
        by auto
      from sub [OF n x] obtain rel where "fst x = t @ n # rel" by blast
      with tx show False by simp
    qed
    with rest listed(4) show ?thesis by simp
  qed
qed

text \<open>A walk that has returned returns the same with more fuel.\<close>

lemma os_walk_mono:
  "os_walk k w t fl = Some items \<Longrightarrow> os_walk (Suc k) w t fl = Some items"
proof (induction k arbitrary: t items)
  case 0
  then show ?case by simp
next
  case (Suc k)
  show ?case
  proof (cases "os_scandir w t")
    case (Inl e)
    with Suc.prems show ?thesis by (simp add: os_walk_Inl)
  next
    case (Inr es)
    have "sub_walk (Suc k) w t fl n = sub_walk k w t fl n" if "n \<in> set (dirnames es)" for n
    proof -
      from Suc.prems Inr have "those (map (sub_walk k w t fl) (dirnames es)) \<noteq> None"
        by (auto simp: os_walk_Inr split: option.splits)
      with that have "sub_walk k w t fl n \<noteq> None"
        by (cases "those (map (sub_walk k w t fl) (dirnames es))") (auto simp: those_map_Some)
      then show ?thesis
        using Suc.IH by (auto simp: sub_walk_def split: if_splits)
    qed
    then have meq: "map (sub_walk (Suc k) w t fl) (dirnames es) = map (sub_walk k w t fl) (dirnames es)"
      by simp
    from Suc.prems show ?thesis
      by (simp only: os_walk_Inr [OF Inr] meq)
  qed
qed

lemma os_walk_mono_le:
  "os_walk k w t fl = Some items \<Longrightarrow> k \<le> k' \<Longrightarrow> os_walk k' w t fl = Some items"
  by (induction k' ) (auto simp: le_Suc_eq os_walk_mono)

text \<open>Where the directories below \<open>t\<close> are at most \<open>n\<close> levels deep, \<open>n + 1\<close> units of
  fuel are enough.\<close>

lemma os_walk_terminates:
  "(\<And>rel. descends w t rel \<Longrightarrow> length rel \<le> n) \<Longrightarrow> os_walk (Suc n) w t False \<noteq> None"
proof (induction n arbitrary: t)
  case 0
  show ?case
  proof (cases "os_scandir w t")
    case (Inl e)
    then show ?thesis by (simp add: os_walk_Inl)
  next
    case (Inr es)
    have "sub_walk 0 w t False c \<noteq> None" if "c \<in> set (dirnames es)" for c
    proof (cases "os_path_islink w (os_path_join t c)")
      case True
      then show ?thesis by (simp add: sub_walk_def)
    next
      case False
      with that Inr have "descends w t [c]" by (simp add: in_dirnames)
      from "0.prems" [OF this] show ?thesis by simp
    qed
    then have "those (map (sub_walk 0 w t False) (dirnames es)) \<noteq> None"
      by (rule those_map_not_None)
    with Inr show ?thesis by (auto simp: os_walk_Inr)
  qed
next
  case (Suc n)
  show ?case
  proof (cases "os_scandir w t")
    case (Inl e)
    then show ?thesis by (simp add: os_walk_Inl)
  next
    case (Inr es)
    have "sub_walk (Suc n) w t False c \<noteq> None" if "c \<in> set (dirnames es)" for c
    proof (cases "os_path_islink w (os_path_join t c)")
      case True
      then show ?thesis by (simp add: sub_walk_def)
    next
      case False
      have "length rel \<le> n" if "descends w (os_path_join t c) rel" for rel
      proof -
        from that False \<open>c \<in> set (dirnames es)\<close> Inr have "descends w t (c # rel)"
          by (simp add: in_dirnames)
        from Suc.prems [OF this] show ?thesis by simp
      qed
      from Suc.IH [OF this] False show ?thesis by (simp add: sub_walk_def)
    qed
    then have "those (map (sub_walk (Suc n) w t False) (dirnames es)) \<noteq> None"
      by (rule those_map_not_None)
    with Inr show ?thesis by (auto simp: os_walk_Inr)
  qed
qed



subsection \<open>The lines of a run\<close>

lemma emitted_after [simp]: "emitted w (after w l out acc) = out"
  by (simp add: emitted_def)

lemma newly_opened_after [simp]: "newly_opened w (after w l out acc) = l"
  by (simp add: newly_opened_def)

lemma scan_Some:
  "scan fuel w rt = Some res \<longleftrightarrow>
     (\<exists>items. os_walk fuel w rt False = Some items
        \<and> \<not> list_ex (hangs w) (concat (map item_cands items))
        \<and> res = (Inr (), after w (concat (map item_cands items))
                                (concat (map (item_lines w rt) items))
                                (map fst items @ concat (map (item_reads w) items))))"
  by (auto simp: scan_eq split: option.splits)

lemma line_of_under:
  "line_of w rt (rt @ rel) n =
     (if endswith n exts \<and> reportable w (rt @ rel @ [n]) \<and> print_error w (rel @ [n]) = None
      then [rel @ [n]] else [])"
proof -
  have "os_path_relpath (rt @ rel @ [n]) rt = Inr (rel @ [n])"
    by (rule relpath_under) simp
  then show ?thesis
    by (simp add: line_of_def os_path_join_def)
qed

lemma listed_file_iff:
  "listed_file w d n \<longleftrightarrow> (\<exists>es. os_scandir w d = Inr es \<and> n \<in> set (filenames es))"
  by (cases "os_scandir w d") (simp_all add: listed_file_def in_filenames)

lemma in_item_lines:
  "l \<in> set (item_lines w rt (rt @ rel, ds, ns)) \<longleftrightarrow>
     (\<exists>n\<in>set ns. l = rel @ [n] \<and> endswith n exts \<and> reportable w (rt @ l)
        \<and> print_error w l = None)"
  by (auto simp: item_lines_def line_of_under)

text \<open>The lines of a run are the reported paths: each stands for a listed file below
  the root with a recognised extension, which opens, reads, starts with the mark and
  prints.\<close>

lemma emitted_iff:
  assumes "scan fuel w rt = Some (r, w')"
  shows "l \<in> set (emitted w w') \<longleftrightarrow> reported w rt l"
proof -
  from assms obtain items where wk: "os_walk fuel w rt False = Some items"
    and w': "w' = after w (concat (map item_cands items)) (concat (map (item_lines w rt) items))
             (map fst items @ concat (map (item_reads w) items))"
    by (auto simp: scan_Some)
  show ?thesis
  proof
    assume "l \<in> set (emitted w w')"
    with w' obtain d ds ns where it: "(d, ds, ns) \<in> set items"
      and l: "l \<in> set (item_lines w rt (d, ds, ns))"
      by auto
    from os_walk_sound [OF wk it] obtain rel es where d: "d = rt @ rel"
      and ds: "descends w rt rel" and es: "os_scandir w d = Inr es"
      and ns: "ns = filenames es"
      by blast
    from l d obtain n where "n \<in> set ns" "l = rel @ [n]" "endswith n exts"
      "reportable w (rt @ l)" "print_error w l = None"
      by (auto simp: in_item_lines)
    with ds es ns d show "reported w rt l"
      by (auto simp: reported_def listed_file_iff)
  next
    assume rp: "reported w rt l"
    define rel where "rel = butlast l"
    define n where "n = last l"
    from rp have l: "l = rel @ [n]"
      by (simp add: reported_def rel_def n_def)
    from rp obtain es where es: "os_scandir w (rt @ rel) = Inr es" and n: "n \<in> set (filenames es)"
      by (auto simp: reported_def listed_file_iff rel_def n_def)
    from rp have ds: "descends w rt rel"
      by (simp add: reported_def rel_def)
    from os_walk_complete [OF wk ds es]
    have it: "(rt @ rel, dirnames es, filenames es) \<in> set items" .
    from rp n l have "l \<in> set (item_lines w rt (rt @ rel, dirnames es, filenames es))"
      by (auto simp: in_item_lines reported_def)
    with it w' show "l \<in> set (emitted w w')"
      by auto
  qed
qed

text \<open>The paths handed to \<^verbatim>\<open>open\<close> all carry a recognised extension.\<close>

lemma newly_opened_ext:
  assumes "scan fuel w rt = Some (r, w')" and "p \<in> set (newly_opened w w')"
  shows "p \<noteq> [] \<and> endswith (last p) exts"
proof -
  from assms(1) obtain items where
    w': "w' = after w (concat (map item_cands items)) (concat (map (item_lines w rt) items))
             (map fst items @ concat (map (item_reads w) items))"
    by (auto simp: scan_Some)
  with assms(2) show ?thesis
    by (auto simp: item_cands_def cand_of_def os_path_join_def split: if_splits)
qed

lemma scan_result: "scan fuel w rt = Some (r, w') \<Longrightarrow> r = Inr ()"
  by (auto simp: scan_Some)

lemma count_list_distinct: "distinct xs \<Longrightarrow> x \<in> set xs \<Longrightarrow> count_list xs x = 1"
  by (induction xs) auto

text \<open>No line is printed twice.\<close>

lemma emitted_distinct:
  assumes "names_distinct w" and "scan fuel w rt = Some (r, w')"
  shows "distinct (emitted w w')"
proof -
  from assms(2) obtain items where wk: "os_walk fuel w rt False = Some items"
    and w': "w' = after w (concat (map item_cands items)) (concat (map (item_lines w rt) items))
             (map fst items @ concat (map (item_reads w) items))"
    by (auto simp: scan_Some)
  have "distinct (concat (map (item_lines w rt) items))"
  proof (rule distinct_concat_map_key [where g = fst and key = "\<lambda>l. rt @ butlast l"])
    show "distinct (map fst items)"
      using assms(1) wk by (rule os_walk_distinct)
  next
    fix x assume "x \<in> set items"
    then have x: "(fst x, fst (snd x), snd (snd x)) \<in> set items" by simp
    from os_walk_sound [OF wk x] obtain rel es where d: "fst x = rt @ rel"
      and es: "os_scandir w (fst x) = Inr es" and ns: "snd (snd x) = filenames es"
      by blast
    from assms(1) es have "distinct (filenames es)"
      by (simp add: names_distinct_def distinct_filenames)
    then have "distinct (map (\<lambda>n. n) (filenames es))" by simp
    then have "distinct (concat (map (line_of w rt (rt @ rel)) (filenames es)))"
      by (rule distinct_concat_map_key [where key = last])
         (auto simp: line_of_under split: if_splits)
    with d ns show "distinct (item_lines w rt x)"
      by (cases x) (simp add: item_lines_def)
  next
    fix x l assume "x \<in> set items" and l: "l \<in> set (item_lines w rt x)"
    then have x: "(fst x, fst (snd x), snd (snd x)) \<in> set items" by simp
    from os_walk_sound [OF wk x] obtain rel where d: "fst x = rt @ rel"
      by blast
    with l have "l \<in> set (item_lines w rt (rt @ rel, fst (snd x), snd (snd x)))"
      by (cases x) simp
    then obtain n where "l = rel @ [n]"
      unfolding in_item_lines by blast
    with d show "rt @ butlast l = fst x"
      by simp
  qed
  with w' show ?thesis by simp
qed



subsection \<open>The example run\<close>

lemma ex_scandir_root:
  "os_scandir ex_world root =
     Inr [\<lparr>d_name = ''e.js'', d_is_dir = False\<rparr>,
          \<lparr>d_name = ''a.json'', d_is_dir = False\<rparr>,
          \<lparr>d_name = ''b.ts'', d_is_dir = False\<rparr>,
          \<lparr>d_name = ''c.txt'', d_is_dir = False\<rparr>,
          \<lparr>d_name = ''sub'', d_is_dir = True\<rparr>,
          \<lparr>d_name = ''f.yml'', d_is_dir = False\<rparr>,
          \<lparr>d_name = ''g.mjs'', d_is_dir = False\<rparr>]"
  by (simp add: os_scandir_def ex_world_def ex_entries_def)

lemma ex_scandir_sub:
  "os_scandir ex_world (root @ [''sub'']) =
     Inr [\<lparr>d_name = ''d.yaml'', d_is_dir = False\<rparr>,
          \<lparr>d_name = ''loop'', d_is_dir = True\<rparr>]"
  by (simp add: os_scandir_def ex_world_def ex_entries_def)

lemma ex_islink:
  "os_path_islink ex_world (root @ [''sub'', ''loop''])"
  "\<not> os_path_islink ex_world (root @ [''sub''])"
  by (simp_all add: os_path_islink_def ex_world_def)

lemma ex_walk_sub:
  "os_walk (Suc 0) ex_world (root @ [''sub'']) False = Some [(root @ [''sub''], [''loop''], [''d.yaml''])]"
  by (simp add: os_walk_Inr [OF ex_scandir_sub] dirnames_def filenames_def sub_walk_def
      os_path_join_def ex_islink)

lemma ex_walk: "os_walk 2 ex_world root False = Some ex_items"
  by (simp add: numeral_2_eq_2 os_walk_Inr [OF ex_scandir_root] dirnames_def filenames_def
      sub_walk_def os_path_join_def ex_islink ex_walk_sub ex_items_def)

lemma ex_endswith:
  "endswith ''e.js'' exts" "endswith ''a.json'' exts" "endswith ''b.ts'' exts"
  "\<not> endswith ''c.txt'' exts" "endswith ''f.yml'' exts" "endswith ''g.mjs'' exts"
  "endswith ''d.yaml'' exts"
  by (simp_all add: endswith_def exts_def suffix_to_prefix)

lemma ex_files:
  "files ex_world (root @ [''e.js'']) =
     \<lparr>data = [0xEF, 0xBB, 0xBF, 0x31], behaviour = Open_raises PermissionError\<rparr>"
  "files ex_world (root @ [''a.json'']) =
     \<lparr>data = [0xEF, 0xBB, 0xBF, 0x7B, 0x7D], behaviour = Readable\<rparr>"
  "files ex_world (root @ [''b.ts'']) =
     \<lparr>data = [0x65, 0x78, 0x70, 0x6F, 0x72, 0x74], behaviour = Readable\<rparr>"
  "files ex_world (root @ [''c.txt'']) =
     \<lparr>data = [0xEF, 0xBB, 0xBF], behaviour = Readable\<rparr>"
  "files ex_world (root @ [''f.yml'']) =
     \<lparr>data = [0xEF, 0xBB], behaviour = Readable\<rparr>"
  "files ex_world (root @ [''g.mjs'']) =
     \<lparr>data = [0xEF, 0xBB, 0xBF], behaviour = Readable\<rparr>"
  "files ex_world (root @ [''sub'', ''d.yaml'']) =
     \<lparr>data = [0xEF, 0xBB, 0xBF, 0x61], behaviour = Readable\<rparr>"
  by (simp_all add: ex_world_def ex_file_def)

lemma ex_open_read:
  "open_error (files ex_world (root @ [''e.js''])) = Some PermissionError"
  "open_error (files ex_world (root @ [''sub'', ''d.yaml''])) = None"
  "read_error (files ex_world (root @ [''sub'', ''d.yaml''])) = None"
  by (simp_all add: ex_files open_error_def read_error_def)

lemma ex_hangs:
  "\<not> hangs ex_world (root @ [''e.js''])" "\<not> hangs ex_world (root @ [''a.json''])"
  "\<not> hangs ex_world (root @ [''b.ts''])" "\<not> hangs ex_world (root @ [''f.yml''])"
  "\<not> hangs ex_world (root @ [''g.mjs''])" "\<not> hangs ex_world (root @ [''sub'', ''d.yaml''])"
  by (simp_all add: hangs_def blocks_def ex_files)

lemma ex_reportable:
  "\<not> reportable ex_world (root @ [''e.js''])"
  "reportable ex_world (root @ [''a.json''])"
  "\<not> reportable ex_world (root @ [''b.ts''])"
  "reportable ex_world (root @ [''c.txt''])"
  "\<not> reportable ex_world (root @ [''f.yml''])"
  "reportable ex_world (root @ [''g.mjs''])"
  "reportable ex_world (root @ [''sub'', ''d.yaml''])"
  by (simp_all add: reportable_def ex_files startswith_def BOM_def)

lemma ex_print_error:
  "print_error ex_world [''g.mjs''] = Some UnicodeEncodeError"
  "print_error ex_world [''a.json''] = None"
  "print_error ex_world [''e.js''] = None"
  "print_error ex_world [''sub'', ''d.yaml''] = None"
  by (simp_all add: ex_world_def)

lemma ex_lines_root:
  "line_of ex_world root root ''e.js'' = []"
  "line_of ex_world root root ''a.json'' = [[''a.json'']]"
  "line_of ex_world root root ''b.ts'' = []"
  "line_of ex_world root root ''c.txt'' = []"
  "line_of ex_world root root ''f.yml'' = []"
  "line_of ex_world root root ''g.mjs'' = []"
  using line_of_under [of ex_world root "[]"]
  by (simp_all add: ex_endswith ex_reportable ex_print_error)

lemma ex_lines_sub:
  "line_of ex_world root (root @ [''sub'']) ''d.yaml'' = [[''sub'', ''d.yaml'']]"
  using line_of_under [of ex_world root "[''sub'']"]
  by (simp add: ex_endswith ex_reportable ex_print_error)

lemma ex_cands:
  "concat (map item_cands ex_items) =
     [root @ [''e.js''], root @ [''a.json''], root @ [''b.ts''],
      root @ [''f.yml''], root @ [''g.mjs''], root @ [''sub'', ''d.yaml'']]"
  by (simp add: ex_items_def item_cands_def cand_of_def ex_endswith os_path_join_def)

lemma ex_out:
  "concat (map (item_lines ex_world root) ex_items) = [[''a.json''], [''sub'', ''d.yaml'']]"
  by (simp add: ex_items_def item_lines_def ex_lines_root ex_lines_sub)

lemma ex_reads:
  "map fst ex_items @ concat (map (item_reads ex_world) ex_items) = ex_accessed"
  by (simp add: ex_items_def item_reads_def read_of_def ex_endswith os_path_join_def ex_files
      ex_accessed_def)

lemma ex_opened_stdout: "opened ex_world = []" "stdout ex_world = []"
  by (simp_all add: ex_world_def)

lemma ex_after:
  "after ex_world
     [root @ [''e.js''], root @ [''a.json''], root @ [''b.ts''],
      root @ [''f.yml''], root @ [''g.mjs''], root @ [''sub'', ''d.yaml'']]
     [[''a.json''], [''sub'', ''d.yaml'']] ex_accessed = ex_final"
proof -
  have "(\<lambda>p. if p \<in> set ex_accessed
             then (stat ex_world p)\<lparr>st_atime := atime_on_access ex_world p\<rparr>
             else stat ex_world p)
      = (\<lambda>p. if p \<in> set ex_accessed
             then \<lparr>st_mode = 0, st_size = 0, st_mtime = 100, st_atime = 200\<rparr>
             else \<lparr>st_mode = 0, st_size = 0, st_mtime = 100, st_atime = 100\<rparr>)"
    by (rule ext) (simp add: ex_world_def)
  then show ?thesis
    by (simp add: after_def accessed_all_def ex_final_def ex_opened_stdout)
qed

lemma ex_scan: "scan 2 ex_world root = Some (Inr (), ex_final)"
  by (simp add: scan_eq ex_walk ex_cands ex_out ex_reads ex_hangs ex_after)

subsection \<open>Further facts\<close>

lemma ex_names_distinct: "names_distinct ex_world"
  by (auto simp: names_distinct_def os_scandir_def ex_world_def ex_entries_def split: if_splits)

lemma ex_descends_sub: "descends ex_world root [''sub'']"
  by (simp add: ex_scandir_root os_path_join_def ex_islink)

lemma ex_listed:
  "listed_file ex_world root ''e.js''"
  "listed_file ex_world root ''g.mjs''"
  "listed_file ex_world root ''f.yml''"
  "listed_file ex_world (root @ [''sub'']) ''d.yaml''"
  by (simp_all add: listed_file_def ex_scandir_root ex_scandir_sub)

lemma ex_emitted: "emitted ex_world ex_final = [[''a.json''], [''sub'', ''d.yaml'']]"
  by (simp add: emitted_def ex_final_def ex_opened_stdout)

lemma check_file_skip:
  assumes "endswith n exts"
    and "behaviour (files w (os_path_join d n)) = Open_raises e
         \<or> behaviour (files w (os_path_join d n)) = Read_raises e"
  shows "check_file w rt d n = Some (Inr (), w\<lparr>opened := opened w @ [os_path_join d n]\<rparr>)"
proof -
  from assms(2) have "\<not> hangs w (os_path_join d n)"
    by (auto simp: hangs_def blocks_def)
  moreover from assms(2) have "line_of w rt d n = []"
    by (auto simp: line_of_alt reportable_def)
  moreover from assms(2) have "read_of w d n = []"
    by (auto simp: read_of_def)
  ultimately show ?thesis
    using assms(1) by (simp add: check_file_eq cand_of_def after_log)
qed

lemma for_names_skip:
  assumes "line_of w rt d n = []" and "\<not> (endswith n exts \<and> hangs w (os_path_join d n))"
  shows "map_option (\<lambda>res. stdout (snd res)) (for_names w rt d (n # ns))
       = map_option (\<lambda>res. stdout (snd res)) (for_names w rt d ns)"
  using assms by (auto simp: for_names_eq cand_of_def)

lemma not_emitted:
  assumes "scan fuel w rt = Some (r, w')" and "\<not> reportable w p \<or> print_error w l \<noteq> None"
    and "rt @ l = p"
  shows "l \<notin> set (emitted w w')"
  using assms by (auto simp: emitted_iff reported_def)

lemma read3_BOM:
  assumes "read w p f 3 = Some (Inr head, w1)"
  shows "startswith head BOM \<longleftrightarrow> length head = 3 \<and> head = BOM"
proof -
  from assms have h: "head = take 3 (data f)"
    by (auto simp: read_def split: behaviour.splits)
  show ?thesis
  proof
    assume "startswith head BOM"
    then obtain zs where z: "head = BOM @ zs"
      by (auto simp: startswith_def prefix_def)
    from h have "length head \<le> 3" by simp
    with z have "zs = []" by (simp add: length_BOM)
    with z show "length head = 3 \<and> head = BOM" by (simp add: length_BOM)
  next
    assume "length head = 3 \<and> head = BOM"
    then show "startswith head BOM" by (simp add: startswith_def)
  qed
qed

lemma short_not_reportable: "length (data (files w p)) < 3 \<Longrightarrow> \<not> reportable w p"
proof
  assume s: "length (data (files w p)) < 3" and "reportable w p"
  then have "prefix BOM (data (files w p))"
    by (simp add: reportable_def startswith_def)
  then have "length BOM \<le> length (data (files w p))"
    by (rule prefix_length_le)
  with s show False by (simp add: length_BOM)
qed

lemma descends_no_link:
  "descends w t rel \<Longrightarrow> prefix rel1 rel \<Longrightarrow> rel1 \<noteq> [] \<Longrightarrow> \<not> os_path_islink w (t @ rel1)"
proof (induction rel arbitrary: t rel1)
  case Nil
  then show ?case by simp
next
  case (Cons n rel)
  from Cons.prems(2,3) obtain rel2 where r1: "rel1 = n # rel2" and p2: "prefix rel2 rel"
    by (cases rel1) auto
  from Cons.prems(1) have nl: "\<not> os_path_islink w (t @ [n])"
    and ds: "descends w (t @ [n]) rel"
    by (auto simp: os_path_join_def split: sum.splits)
  show ?case
  proof (cases "rel2 = []")
    case True
    with r1 nl show ?thesis by simp
  next
    case False
    from Cons.IH [OF ds p2 False] r1 show ?thesis by simp
  qed
qed

text \<open>The paths a run hands to \<^verbatim>\<open>open\<close> are the listed files below the root with a
  recognised extension. So a run returns exactly when the walk does and none of them
  blocks.\<close>

lemma in_item_cands:
  "p \<in> set (item_cands (d, ds, ns)) \<longleftrightarrow> (\<exists>n\<in>set ns. endswith n exts \<and> p = d @ [n])"
  by (auto simp: item_cands_def cand_of_def os_path_join_def)


lemma cands_iff:
  assumes "os_walk fuel w rt False = Some items"
  shows "p \<in> set (concat (map item_cands items)) \<longleftrightarrow>
     (\<exists>rel n. p = rt @ rel @ [n] \<and> descends w rt rel \<and> listed_file w (rt @ rel) n
        \<and> endswith n exts)"
proof
  assume "p \<in> set (concat (map item_cands items))"
  then obtain d ds ns where it: "(d, ds, ns) \<in> set items" and p: "p \<in> set (item_cands (d, ds, ns))"
    by auto
  from p obtain n where n: "n \<in> set ns" and e: "endswith n exts" and pd: "p = d @ [n]"
    by (auto simp: in_item_cands)
  from os_walk_sound [OF assms it] obtain rel es where d: "d = rt @ rel"
    and de: "descends w rt rel" and sc: "os_scandir w d = Inr es" and ns: "ns = filenames es"
    by blast
  from sc n ns have "listed_file w d n"
    by (auto simp: listed_file_iff)
  with d de e pd show "\<exists>rel n. p = rt @ rel @ [n] \<and> descends w rt rel
      \<and> listed_file w (rt @ rel) n \<and> endswith n exts"
    by auto
next
  assume "\<exists>rel n. p = rt @ rel @ [n] \<and> descends w rt rel \<and> listed_file w (rt @ rel) n
      \<and> endswith n exts"
  then obtain rel n where p: "p = rt @ rel @ [n]" and de: "descends w rt rel"
    and li: "listed_file w (rt @ rel) n" and e: "endswith n exts"
    by blast
  from li obtain es where sc: "os_scandir w (rt @ rel) = Inr es" and n: "n \<in> set (filenames es)"
    by (auto simp: listed_file_iff)
  from os_walk_complete [OF assms de sc]
  have it: "(rt @ rel, dirnames es, filenames es) \<in> set items" .
  from n e p have "p \<in> set (item_cands (rt @ rel, dirnames es, filenames es))"
    by (auto simp: in_item_cands)
  with it show "p \<in> set (concat (map item_cands items))"
    by auto
qed

lemma hang_free_iff:
  assumes "os_walk fuel w rt False = Some items"
  shows "\<not> list_ex (hangs w) (concat (map item_cands items)) \<longleftrightarrow> no_blocking w rt"
proof
  assume h: "\<not> list_ex (hangs w) (concat (map item_cands items))"
  show "no_blocking w rt"
    unfolding no_blocking_def
  proof (intro allI impI)
    fix rel n
    assume a: "descends w rt rel \<and> listed_file w (rt @ rel) n \<and> endswith n exts"
    then have "rt @ rel @ [n] \<in> set (concat (map item_cands items))"
      unfolding cands_iff [OF assms] by blast
    with h show "\<not> hangs w (rt @ rel @ [n])"
      unfolding list_ex_iff by blast
  qed
next
  assume nb: "no_blocking w rt"
  show "\<not> list_ex (hangs w) (concat (map item_cands items))"
    unfolding list_ex_iff
  proof
    assume "\<exists>p\<in>set (concat (map item_cands items)). hangs w p"
    then obtain p where p: "p \<in> set (concat (map item_cands items))" and h: "hangs w p"
      by blast
    from p obtain rel n where "p = rt @ rel @ [n]" "descends w rt rel"
      "listed_file w (rt @ rel) n" "endswith n exts"
      unfolding cands_iff [OF assms] by blast
    with nb h show False
      by (auto simp: no_blocking_def)
  qed
qed

lemma scan_returns_iff:
  "scan fuel w rt \<noteq> None \<longleftrightarrow> os_walk fuel w rt False \<noteq> None \<and> no_blocking w rt"
proof (cases "os_walk fuel w rt False")
  case None
  then show ?thesis by (simp add: scan_eq)
next
  case (Some items)
  then have a: "os_walk fuel w rt False \<noteq> None"
    by simp
  from Some have b: "scan fuel w rt \<noteq> None
      \<longleftrightarrow> \<not> list_ex (hangs w) (concat (map item_cands items))"
    by (simp add: scan_eq)
  from a b hang_free_iff [OF Some] show ?thesis
    by blast
qed

lemma returns_no_blocking: "returns w rt \<Longrightarrow> no_blocking w rt"
proof -
  assume "returns w rt"
  then obtain fuel res where "scan fuel w rt = Some res"
    by (auto simp: returns_def)
  then have "scan fuel w rt \<noteq> None" by simp
  then show ?thesis
    unfolding scan_returns_iff by blast
qed

lemma walk_terminates:
  assumes "finite {rel. descends w rt rel}"
  shows "\<exists>fuel items. os_walk fuel w rt False = Some items"
proof -
  from finite_maxlen [OF assms] obtain n where n: "\<forall>rel\<in>{rel. descends w rt rel}. length rel < n"
    by blast
  have "os_walk (Suc n) w rt False \<noteq> None"
  proof (rule os_walk_terminates)
    fix rel assume "descends w rt rel"
    with n show "length rel \<le> n" by auto
  qed
  then show ?thesis by blast
qed

lemma scan_terminates:
  assumes "finite {rel. descends w rt rel}" and "no_blocking w rt"
  shows "\<exists>fuel w'. scan fuel w rt = Some (Inr (), w')"
proof -
  from finite_maxlen [OF assms(1)] obtain n where n: "\<forall>rel\<in>{rel. descends w rt rel}. length rel < n"
    by blast
  have "os_walk (Suc n) w rt False \<noteq> None"
  proof (rule os_walk_terminates)
    fix rel assume "descends w rt rel"
    with n show "length rel \<le> n" by auto
  qed
  with assms(2) have "scan (Suc n) w rt \<noteq> None"
    unfolding scan_returns_iff by blast
  then obtain r w' where s: "scan (Suc n) w rt = Some (r, w')"
    by auto
  then have "r = Inr ()" by (rule scan_result)
  with s show ?thesis by blast
qed


lemma ex_descends: "descends ex_world root rel \<longleftrightarrow> rel = [] \<or> rel = [''sub'']"
proof
  assume d: "descends ex_world root rel"
  show "rel = [] \<or> rel = [''sub'']"
  proof (cases rel)
    case Nil
    then show ?thesis by simp
  next
    case (Cons n rel')
    with d have n: "n = ''sub''" and d': "descends ex_world (root @ [''sub'']) rel'"
      by (auto simp: ex_scandir_root os_path_join_def)
    have "rel' = []"
    proof (cases rel')
      case Nil
      then show ?thesis .
    next
      case (Cons m rel'')
      with d' have "m = ''loop''" and "\<not> os_path_islink ex_world (root @ [''sub''] @ [m])"
        by (auto simp: ex_scandir_sub os_path_join_def)
      with ex_islink(1) show ?thesis by simp
    qed
    with n Cons show ?thesis by simp
  qed
next
  assume "rel = [] \<or> rel = [''sub'']"
  then show "descends ex_world root rel"
    using ex_descends_sub by auto
qed

lemma ex_finite: "finite {rel. descends ex_world root rel}"
proof -
  have "{rel. descends ex_world root rel} = {[], [''sub'']}"
    by (auto simp: ex_descends)
  then show ?thesis by simp
qed

lemma ex_loop:
  "os_scandir ex_world (root @ [''sub'', ''loop'']) = os_scandir ex_world root"
  "os_scandir ex_world (root @ [''sub'', ''loop'', ''sub'', ''loop'']) = os_scandir ex_world root"
  by (simp_all add: os_scandir_def ex_world_def)

lemma same_tree_scandir:
  assumes "same_tree w v"
  shows "(\<exists>e e'. os_scandir w p = Inl e \<and> os_scandir v p = Inl e')
       \<or> (\<exists>es es'. os_scandir w p = Inr es \<and> os_scandir v p = Inr es' \<and> set es = set es')"
proof -
  from assms have "same_listing (dir_entries w p) (dir_entries v p)"
    by (simp add: same_tree_def)
  then show ?thesis
    by (cases "dir_entries w p"; cases "dir_entries v p")
       (simp_all add: same_listing_def os_scandir_def)
qed

lemma same_tree_islink: "same_tree w v \<Longrightarrow> os_path_islink w p = os_path_islink v p"
  by (simp add: same_tree_def os_path_islink_def)

lemma same_tree_descends: "same_tree w v \<Longrightarrow> descends w t rel = descends v t rel"
proof (induction rel arbitrary: t)
  case Nil
  then show ?case by simp
next
  case (Cons n rel)
  from same_tree_scandir [OF Cons.prems, of t] show ?case
  proof (elim disjE exE conjE)
    fix e e' assume "os_scandir w t = Inl e" "os_scandir v t = Inl e'"
    then show ?thesis by simp
  next
    fix es es' assume "os_scandir w t = Inr es" "os_scandir v t = Inr es'" "set es = set es'"
    then show ?thesis
      using Cons.IH [OF Cons.prems] same_tree_islink [OF Cons.prems]
      by (simp add: list_ex_iff)
  qed
qed

lemma same_tree_listed: "same_tree w v \<Longrightarrow> listed_file w d n = listed_file v d n"
  using same_tree_scandir [of w v d]
  by (auto simp: listed_file_def list_ex_iff)

lemma same_tree_reported: "same_tree w v \<Longrightarrow> reported w rt l = reported v rt l"
  using same_tree_descends [of w v rt "butlast l"] same_tree_listed [of w v "rt @ butlast l" "last l"]
  by (auto simp: reported_def reportable_def same_tree_def)

lemma same_tree_walk:
  "same_tree w v \<Longrightarrow> os_walk k w t False \<noteq> None \<Longrightarrow> os_walk k v t False \<noteq> None"
proof (induction k arbitrary: t)
  case 0
  then show ?case by simp
next
  case (Suc k)
  from same_tree_scandir [OF Suc.prems(1), of t] show ?case
  proof (elim disjE exE conjE)
    fix e e' assume "os_scandir w t = Inl e" "os_scandir v t = Inl e'"
    then show ?thesis by (simp add: os_walk_Inl)
  next
    fix es es' assume w: "os_scandir w t = Inr es" and v: "os_scandir v t = Inr es'"
      and s: "set es = set es'"
    from Suc.prems(2) w have "those (map (sub_walk k w t False) (dirnames es)) \<noteq> None"
      by (auto simp: os_walk_Inr split: option.splits)
    then have a: "\<And>n. n \<in> set (dirnames es) \<Longrightarrow> sub_walk k w t False n \<noteq> None"
      by (cases "those (map (sub_walk k w t False) (dirnames es))") (auto simp: those_map_Some)
    have "sub_walk k v t False n \<noteq> None" if "n \<in> set (dirnames es')" for n
    proof -
      from that s have "n \<in> set (dirnames es)"
        by (simp add: in_dirnames list_ex_iff)
      from a [OF this] show ?thesis
        using Suc.IH [OF Suc.prems(1)] same_tree_islink [OF Suc.prems(1)]
        by (auto simp: sub_walk_def split: if_splits)
    qed
    then have "those (map (sub_walk k v t False) (dirnames es')) \<noteq> None"
      by (rule those_map_not_None)
    with v show ?thesis by (auto simp: os_walk_Inr)
  qed
qed

lemma same_tree_no_blocking: "same_tree w v \<Longrightarrow> no_blocking w rt = no_blocking v rt"
  using same_tree_descends [of w v rt] same_tree_listed [of w v]
  by (simp add: no_blocking_def hangs_def same_tree_def)

lemma ex_never_hangs: "\<not> hangs ex_world p"
  by (simp add: hangs_def blocks_def ex_world_def ex_file_def)

lemma ex_no_blocking: "no_blocking ex_world root"
  by (simp add: no_blocking_def ex_never_hangs)

text \<open>A tree of one directory that holds one named pipe with a recognised extension:
  the walk returns at once, the first \<^verbatim>\<open>open\<close> never does.\<close>

lemma fifo_scandir:
  "os_scandir fifo_world root = Inr [\<lparr>d_name = ''pipe.json'', d_is_dir = False\<rparr>]"
  by (simp add: os_scandir_def fifo_world_def)

lemma fifo_descends: "descends fifo_world root rel \<longleftrightarrow> rel = []"
  by (cases rel) (simp_all add: fifo_scandir)

lemma fifo_finite: "finite {rel. descends fifo_world root rel}"
  by (simp add: fifo_descends)

lemma fifo_walk: "os_walk (Suc k) fifo_world root False = Some [(root, [], [''pipe.json''])]"
  by (simp add: os_walk_Inr [OF fifo_scandir] dirnames_def filenames_def)

lemma fifo_hangs: "hangs fifo_world p"
  by (simp add: hangs_def blocks_def fifo_world_def)

lemma fifo_endswith: "endswith ''pipe.json'' exts"
  by (simp add: endswith_def exts_def suffix_to_prefix)

lemma fifo_open: "open_rb fifo_world p = None"
  by (simp add: open_rb_def fifo_world_def)

lemma fifo_scan: "scan fuel fifo_world root = None"
proof (cases fuel)
  case 0
  then show ?thesis by (simp add: scan_def)
next
  case (Suc k)
  then show ?thesis
    by (simp add: scan_eq fifo_walk item_cands_def cand_of_def fifo_endswith fifo_hangs)
qed

lemma ex_same_tree: "same_tree ex_final ex_reordered"
proof -
  have "same_listing x (map_sum id rev x)" for x :: "exn + dirent list"
    by (cases x) (simp_all add: same_listing_def)
  then show ?thesis
    by (simp add: same_tree_def ex_reordered_def)
qed

text \<open>The flag matters: in the example world a walk that follows links goes round
  \<^verbatim>\<open>sub/loop\<close> and returns for no amount of fuel.\<close>

lemma unloop_append_nil: "unloop rel = [] \<Longrightarrow> unloop (rel @ xs) = unloop xs"
  by (induction rel rule: unloop.induct) (auto split: if_splits)

lemma unloop_sub_loop: "unloop rel = [''sub''] \<Longrightarrow> unloop (rel @ [''loop'']) = []"
  by (induction rel rule: unloop.induct) (auto split: if_splits)

lemma ex_scandir_unloop:
  "os_scandir ex_world (root @ rel) = ex_entries (unloop rel)"
  by (simp add: os_scandir_def ex_world_def)

lemma ex_walk_follow_diverges:
  "unloop rel = [] \<or> unloop rel = [''sub''] \<Longrightarrow> os_walk k ex_world (root @ rel) True = None"
proof (induction k arbitrary: rel)
  case 0
  then show ?case by simp
next
  case (Suc k)
  from Suc.prems show ?case
  proof
    assume u: "unloop rel = []"
    then have "unloop (rel @ [''sub'']) = [''sub'']"
      by (simp add: unloop_append_nil)
    then have "os_walk k ex_world (root @ rel @ [''sub'']) True = None"
      using Suc.IH by simp
    moreover have "os_scandir ex_world (root @ rel) = os_scandir ex_world root"
      using u ex_scandir_unloop [of rel] ex_scandir_unloop [of "[]"] by simp
    ultimately show ?thesis
      by (simp add: os_walk_Inr ex_scandir_root dirnames_def sub_walk_def os_path_join_def)
  next
    assume u: "unloop rel = [''sub'']"
    then have "unloop (rel @ [''loop'']) = []"
      by (rule unloop_sub_loop)
    then have "os_walk k ex_world (root @ rel @ [''loop'']) True = None"
      using Suc.IH by simp
    moreover have "os_scandir ex_world (root @ rel) = os_scandir ex_world (root @ [''sub''])"
      using u ex_scandir_unloop [of rel] ex_scandir_unloop [of "[''sub'']"] by simp
    ultimately show ?thesis
      by (simp add: os_walk_Inr ex_scandir_sub dirnames_def sub_walk_def os_path_join_def)
  qed
qed

lemma ex_followlinks_never_returns: "os_walk k ex_world root True = None"
  using ex_walk_follow_diverges [of "[]" k] by simp

section \<open>The claims\<close>

text \<open>
  Claim C1, amended to what the script does: where no directory lists a name twice, the
  directories reached from the root without crossing a symbolic link are finitely many,
  and no candidate blocks on \<^verbatim>\<open>open\<close> or \<^verbatim>\<open>read\<close>, the run returns, and a listed file
  reached from the root through listed directories that are no symbolic links, whose
  name ends in a recognised extension, which opens and reads without an exception, whose
  bytes start with \<^verbatim>\<open>EF BB BF\<close> and whose relative path prints without an exception,
  has its root-relative path among the lines of the run exactly once.
\<close>

theorem bom_file_reported_once:
  assumes "names_distinct w" and "finite {rel. descends w rt rel}" and "no_blocking w rt"
    and "descends w rt rel" and "listed_file w (rt @ rel) n" and "endswith n exts"
    and "open_error (files w (rt @ rel @ [n])) = None"
    and "read_error (files w (rt @ rel @ [n])) = None"
    and "startswith (data (files w (rt @ rel @ [n]))) BOM"
    and "print_error w (rel @ [n]) = None"
  shows "(\<exists>fuel w'. scan fuel w rt = Some (Inr (), w')
            \<and> count_list (emitted w w') (rel @ [n]) = 1)
       \<and> (\<forall>fuel r w'. scan fuel w rt = Some (r, w')
            \<longrightarrow> count_list (emitted w w') (rel @ [n]) = 1)"
proof -
  from assms(3-6) have "\<not> blocks (files w (rt @ rel @ [n]))"
    by (auto simp: no_blocking_def hangs_def)
  with assms(7,8) have "behaviour (files w (rt @ rel @ [n])) = Readable"
    by (simp add: behaviour_errors)
  with assms(4-6,9,10) have rp: "reported w rt (rel @ [n])"
    by (simp add: reported_def reportable_def)
  have one: "count_list (emitted w w') (rel @ [n]) = 1"
    if s: "scan fuel w rt = Some (r, w')" for fuel r w'
  proof -
    from s rp have "rel @ [n] \<in> set (emitted w w')"
      by (simp add: emitted_iff)
    moreover from assms(1) s have "distinct (emitted w w')"
      by (rule emitted_distinct)
    ultimately show ?thesis
      by (simp add: count_list_distinct)
  qed
  from scan_terminates [OF assms(2,3)] obtain fuel w' where "scan fuel w rt = Some (Inr (), w')"
    by blast
  with one show ?thesis
    by blast
qed

theorem bom_file_reported_once_witness:
  "names_distinct ex_world \<and> finite {rel. descends ex_world root rel}
   \<and> no_blocking ex_world root
   \<and> descends ex_world root [''sub''] \<and> listed_file ex_world (root @ [''sub'']) ''d.yaml''
   \<and> endswith ''d.yaml'' exts
   \<and> open_error (files ex_world (root @ [''sub''] @ [''d.yaml''])) = None
   \<and> read_error (files ex_world (root @ [''sub''] @ [''d.yaml''])) = None
   \<and> startswith (data (files ex_world (root @ [''sub''] @ [''d.yaml'']))) BOM
   \<and> print_error ex_world ([''sub''] @ [''d.yaml'']) = None
   \<and> scan 2 ex_world root = Some (Inr (), ex_final)
   \<and> count_list (emitted ex_world ex_final) ([''sub''] @ [''d.yaml'']) = 1"
proof -
  have f: "open_error (files ex_world (root @ [''sub''] @ [''d.yaml''])) = None"
    "read_error (files ex_world (root @ [''sub''] @ [''d.yaml''])) = None"
    "startswith (data (files ex_world (root @ [''sub''] @ [''d.yaml'']))) BOM"
    by (simp_all add: ex_files open_error_def read_error_def startswith_def BOM_def)
  have p: "print_error ex_world ([''sub''] @ [''d.yaml'']) = None"
    by (simp add: ex_print_error)
  note h = ex_names_distinct ex_finite ex_no_blocking ex_descends_sub ex_listed(4)
    ex_endswith(7) f p
  from h ex_scan bom_file_reported_once [OF h] show ?thesis by blast
qed

text \<open>
  Claim C1 as it is written promises a line for every file below the root with a
  recognised extension and the mark. The script prints none for such a file that cannot
  be opened, or whose path cannot be printed: \<^verbatim>\<open>e.js\<close> of the example world starts
  with the mark and its \<^verbatim>\<open>open\<close> raises \<^verbatim>\<open>PermissionError\<close>; \<^verbatim>\<open>g.mjs\<close> starts with the
  mark and its \<^verbatim>\<open>print\<close> raises \<^verbatim>\<open>UnicodeEncodeError\<close>. The handler passes both times,
  and the run prints no line for either.
\<close>

theorem unreadable_bom_file_not_reported:
  "listed_file ex_world root ''e.js'' \<and> endswith ''e.js'' exts
   \<and> startswith (data (files ex_world (root @ [''e.js'']))) BOM
   \<and> open_error (files ex_world (root @ [''e.js''])) = Some PermissionError
   \<and> listed_file ex_world root ''g.mjs'' \<and> endswith ''g.mjs'' exts
   \<and> startswith (data (files ex_world (root @ [''g.mjs'']))) BOM
   \<and> print_error ex_world [''g.mjs''] = Some UnicodeEncodeError
   \<and> scan 2 ex_world root = Some (Inr (), ex_final)
   \<and> count_list (emitted ex_world ex_final) [''e.js''] = 0
   \<and> count_list (emitted ex_world ex_final) [''g.mjs''] = 0"
  by (simp add: ex_listed ex_endswith ex_files open_error_def startswith_def BOM_def ex_scan
      ex_emitted ex_print_error)

text \<open>
  Claim C2. A path below the root whose bytes do not start with \<^verbatim>\<open>EF BB BF\<close> is
  never among the lines of a run, whatever its name.
\<close>

theorem no_bom_never_reported:
  "scan fuel w rt = Some (r, w') \<Longrightarrow> \<not> startswith (data (files w (rt @ rel))) BOM \<Longrightarrow>
     rel \<notin> set (emitted w w')"
  by (auto simp: emitted_iff reported_def reportable_def)

theorem no_bom_never_reported_witness:
  "scan 2 ex_world root = Some (Inr (), ex_final)
   \<and> \<not> startswith (data (files ex_world (root @ [''b.ts'']))) BOM
   \<and> [''b.ts''] \<notin> set (emitted ex_world ex_final)"
proof -
  have s: "scan 2 ex_world root = Some (Inr (), ex_final)"
    by (rule ex_scan)
  have b: "\<not> startswith (data (files ex_world (root @ [''b.ts'']))) BOM"
    by (simp add: ex_files startswith_def BOM_def)
  from s b no_bom_never_reported [OF s b] show ?thesis by simp
qed

text \<open>
  Claim C3. A name that ends in no recognised extension is never handed to
  \<^verbatim>\<open>open\<close> in any directory (and \<^verbatim>\<open>read\<close> is only called on what \<^verbatim>\<open>open\<close> returned),
  and no line of the run ends in it, whatever the file holds.
\<close>

theorem other_extension_never_opened:
  "scan fuel w rt = Some (r, w') \<Longrightarrow> \<not> endswith n exts \<Longrightarrow>
     os_path_join d n \<notin> set (newly_opened w w') \<and> rel @ [n] \<notin> set (emitted w w')"
  using newly_opened_ext [of fuel w rt r w' "os_path_join d n"]
  by (auto simp: emitted_iff reported_def os_path_join_def)

theorem other_extension_never_opened_witness:
  "scan 2 ex_world root = Some (Inr (), ex_final)
   \<and> \<not> endswith ''c.txt'' exts
   \<and> startswith (data (files ex_world (root @ [''c.txt'']))) BOM
   \<and> os_path_join root ''c.txt'' \<notin> set (newly_opened ex_world ex_final)
   \<and> [] @ [''c.txt''] \<notin> set (emitted ex_world ex_final)"
proof -
  have s: "scan 2 ex_world root = Some (Inr (), ex_final)"
    by (rule ex_scan)
  have e: "\<not> endswith ''c.txt'' exts"
    by (rule ex_endswith)
  have b: "startswith (data (files ex_world (root @ [''c.txt'']))) BOM"
    by (simp add: ex_files startswith_def BOM_def)
  from s e b other_extension_never_opened [OF s e, of root "[]"] show ?thesis by simp
qed

text \<open>
  Claim C4. When \<^verbatim>\<open>open\<close> or \<^verbatim>\<open>read\<close> raises on a candidate, the turn returns
  without an exception and without a line, the loop goes on with the names that follow
  and prints for them what it prints when the failing name is not there, the run surfaces
  no error, the failing file is not reported, and every reportable file still is.
\<close>

theorem unreadable_file_skipped:
  assumes "endswith n exts"
    and "open_error (files w (os_path_join d n)) = Some e
         \<or> read_error (files w (os_path_join d n)) = Some e"
  shows "check_file w rt d n = Some (Inr (), w\<lparr>opened := opened w @ [os_path_join d n]\<rparr>)
    \<and> for_names w rt d (n # ns)
        = for_names (w\<lparr>opened := opened w @ [os_path_join d n]\<rparr>) rt d ns
    \<and> map_option (\<lambda>res. stdout (snd res)) (for_names w rt d (n # ns))
        = map_option (\<lambda>res. stdout (snd res)) (for_names w rt d ns)
    \<and> (scan fuel w rt = Some (r, w') \<longrightarrow>
          r = Inr () \<and> (\<forall>l. rt @ l = os_path_join d n \<longrightarrow> l \<notin> set (emitted w w'))
          \<and> (\<forall>l. reported w rt l \<longrightarrow> l \<in> set (emitted w w')))"
proof -
  let ?p = "os_path_join d n"
  from assms(2) have b: "behaviour (files w ?p) = Open_raises e
      \<or> behaviour (files w ?p) = Read_raises e"
    by (simp add: behaviour_errors)
  then have nh: "\<not> (endswith n exts \<and> hangs w ?p)"
    by (auto simp: hangs_def blocks_def)
  from b have nr: "\<not> reportable w ?p"
    by (auto simp: reportable_def)
  then have l: "line_of w rt d n = []"
    by (simp add: line_of_alt)
  have c: "check_file w rt d n = Some (Inr (), w\<lparr>opened := opened w @ [?p]\<rparr>)"
    using assms(1) b by (rule check_file_skip)
  have "scan fuel w rt = Some (r, w') \<longrightarrow>
          r = Inr () \<and> (\<forall>l. rt @ l = ?p \<longrightarrow> l \<notin> set (emitted w w'))
          \<and> (\<forall>l. reported w rt l \<longrightarrow> l \<in> set (emitted w w'))"
    using nr by (auto simp: emitted_iff scan_result reported_def)
  moreover have "for_names w rt d (n # ns)
      = for_names (w\<lparr>opened := opened w @ [?p]\<rparr>) rt d ns"
    using c by simp
  moreover have "map_option (\<lambda>res. stdout (snd res)) (for_names w rt d (n # ns))
      = map_option (\<lambda>res. stdout (snd res)) (for_names w rt d ns)"
    using l nh by (rule for_names_skip)
  ultimately show ?thesis
    using c by blast
qed

theorem unreadable_file_skipped_witness:
  "endswith ''e.js'' exts
   \<and> open_error (files ex_world (os_path_join root ''e.js'')) = Some PermissionError
   \<and> check_file ex_world root root ''e.js''
       = Some (Inr (), ex_world\<lparr>opened := opened ex_world @ [os_path_join root ''e.js'']\<rparr>)
   \<and> map_option (\<lambda>res. stdout (snd res)) (for_names ex_world root root [''e.js'', ''a.json''])
       = map_option (\<lambda>res. stdout (snd res)) (for_names ex_world root root [''a.json''])
   \<and> map_option (\<lambda>res. stdout (snd res)) (for_names ex_world root root [''a.json''])
       = Some [[''a.json'']]
   \<and> scan 2 ex_world root = Some (Inr (), ex_final)
   \<and> [''e.js''] \<notin> set (emitted ex_world ex_final)
   \<and> reported ex_world root [''sub'', ''d.yaml'']
   \<and> [''sub'', ''d.yaml''] \<in> set (emitted ex_world ex_final)"
proof -
  have e: "endswith ''e.js'' exts"
    by (rule ex_endswith)
  have o: "open_error (files ex_world (os_path_join root ''e.js'')) = Some PermissionError
           \<or> read_error (files ex_world (os_path_join root ''e.js'')) = Some PermissionError"
    by (simp add: os_path_join_def ex_open_read)
  have a: "map_option (\<lambda>res. stdout (snd res)) (for_names ex_world root root [''a.json''])
      = Some [[''a.json'']]"
    by (simp add: for_names_eq cand_of_def ex_endswith os_path_join_def ex_hangs ex_lines_root
        ex_opened_stdout)
  have rp: "reported ex_world root [''sub'', ''d.yaml'']"
    using ex_descends_sub ex_listed(4) ex_endswith(7) ex_reportable(7) ex_print_error(4)
    by (simp add: reported_def)
  have o1: "open_error (files ex_world (os_path_join root ''e.js'')) = Some PermissionError"
    by (simp add: os_path_join_def ex_open_read)
  have j: "root @ [''e.js''] = os_path_join root ''e.js''"
    by (simp add: os_path_join_def)
  from unreadable_file_skipped [OF e o, of root "[''a.json'']" 2 "Inr ()" ex_final]
    e o1 a rp ex_scan j
  show ?thesis
    by metis
qed

text \<open>
  Claim C5, amended to what the script does: when listing the root raises, the run
  returns without an exception and leaves the world as it was, nothing printed and
  nothing opened.
\<close>

theorem walk_error_swallowed:
  "os_scandir w rt = Inl e \<Longrightarrow> scan (Suc fuel) w rt = Some (Inr (), w)"
  by (simp add: scan_eq os_walk_Inl)

theorem walk_error_swallowed_witness:
  "os_scandir missing_world root = Inl FileNotFoundError
   \<and> scan (Suc 4) missing_world root = Some (Inr (), missing_world)"
proof -
  have m: "os_scandir missing_world root = Inl FileNotFoundError"
    by (simp add: os_scandir_def missing_world_def)
  from m walk_error_swallowed [OF m, of 4] show ?thesis by simp
qed

text \<open>
  Claim C5 as it is written has an error of the traversal end the program. It does
  not: \<^verbatim>\<open>os.walk\<close> is called without \<^verbatim>\<open>onerror\<close> and ignores the \<^verbatim>\<open>OSError\<close> of
  \<^verbatim>\<open>scandir\<close>. Where the root does not exist, the run ends normally with no line.
\<close>

theorem walk_error_not_raised:
  "os_scandir missing_world root = Inl FileNotFoundError
   \<and> main 1 missing_world = Some (Inr (), missing_world)
   \<and> main 1 missing_world \<noteq> Some (Inl FileNotFoundError, missing_world)
   \<and> stdout missing_world = []"
proof -
  have "os_scandir missing_world root = Inl FileNotFoundError"
    by (simp add: os_scandir_def missing_world_def)
  then have "main 1 missing_world = Some (Inr (), missing_world)"
    by (simp add: main_def scan_eq os_walk_Inl)
  moreover have "stdout missing_world = []"
    by (simp add: missing_world_def)
  ultimately show ?thesis
    using \<open>os_scandir missing_world root = Inl FileNotFoundError\<close> by simp
qed

text \<open>
  Claim C6. A candidate of fewer than three bytes never ends its turn with an
  exception and never with a line: unless opening or reading it blocks, the turn returns
  normally with nothing printed, and a turn that returns at all has printed nothing; the
  file is never among the lines of a run, and the run surfaces no error; the three bytes
  read match exactly when they are three and equal \<^verbatim>\<open>EF BB BF\<close>.
\<close>

theorem short_file_never_reported:
  assumes "length (data (files w (os_path_join d n))) < 3"
  shows "(\<forall>e v. check_file w rt d n \<noteq> Some (Inl e, v))
    \<and> (\<forall>res. check_file w rt d n = Some res \<longrightarrow> stdout (snd res) = stdout w)
    \<and> (\<not> (endswith n exts \<and> hangs w (os_path_join d n)) \<longrightarrow>
          (\<exists>v. check_file w rt d n = Some (Inr (), v) \<and> stdout v = stdout w))
    \<and> (scan fuel w rt = Some (r, w') \<longrightarrow>
          r = Inr () \<and> (\<forall>l. rt @ l = os_path_join d n \<longrightarrow> l \<notin> set (emitted w w')))
    \<and> (read w1 p f 3 = Some (Inr head, w2) \<longrightarrow>
          (startswith head BOM \<longleftrightarrow> length head = 3 \<and> head = BOM))"
proof -
  from assms have nr: "\<not> reportable w (os_path_join d n)"
    by (rule short_not_reportable)
  then have l: "line_of w rt d n = []"
    by (simp add: line_of_alt)
  have "scan fuel w rt = Some (r, w') \<longrightarrow>
          r = Inr () \<and> (\<forall>l. rt @ l = os_path_join d n \<longrightarrow> l \<notin> set (emitted w w'))"
    using nr by (auto simp: emitted_iff scan_result reported_def)
  moreover have "\<forall>e v. check_file w rt d n \<noteq> Some (Inl e, v)"
    by (simp add: check_file_eq)
  moreover have "\<forall>res. check_file w rt d n = Some res \<longrightarrow> stdout (snd res) = stdout w"
    using l by (auto simp: check_file_eq split: if_splits)
  moreover have "\<not> (endswith n exts \<and> hangs w (os_path_join d n)) \<longrightarrow>
          (\<exists>v. check_file w rt d n = Some (Inr (), v) \<and> stdout v = stdout w)"
    using l by (auto simp: check_file_eq)
  moreover have "read w1 p f 3 = Some (Inr head, w2) \<longrightarrow>
          (startswith head BOM \<longleftrightarrow> length head = 3 \<and> head = BOM)"
    using read3_BOM by blast
  ultimately show ?thesis
    by blast
qed

theorem short_file_never_reported_witness:
  "length (data (files ex_world (os_path_join root ''f.yml''))) < 3
   \<and> endswith ''f.yml'' exts \<and> \<not> hangs ex_world (os_path_join root ''f.yml'')
   \<and> (\<exists>v. check_file ex_world root root ''f.yml'' = Some (Inr (), v)
          \<and> stdout v = stdout ex_world)
   \<and> scan 2 ex_world root = Some (Inr (), ex_final)
   \<and> [''f.yml''] \<notin> set (emitted ex_world ex_final)
   \<and> read ex_world (root @ [''f.yml'']) (files ex_world (root @ [''f.yml''])) 3
       = Some (Inr [0xEF, 0xBB], accessed ex_world (root @ [''f.yml'']))
   \<and> \<not> startswith [0xEF, 0xBB] BOM"
proof -
  have s: "length (data (files ex_world (os_path_join root ''f.yml''))) < 3"
    by (simp add: os_path_join_def ex_files)
  have rd: "read ex_world (root @ [''f.yml'']) (files ex_world (root @ [''f.yml''])) 3
      = Some (Inr [0xEF, 0xBB], accessed ex_world (root @ [''f.yml'']))"
    by (simp add: read_def ex_files)
  have h: "\<not> hangs ex_world (os_path_join root ''f.yml'')"
    by (rule ex_never_hangs)
  have j: "root @ [''f.yml''] = os_path_join root ''f.yml''"
    by (simp add: os_path_join_def)
  have b: "\<not> startswith [0xEF, 0xBB] BOM"
    by (simp add: startswith_def BOM_def)
  from short_file_never_reported [OF s, of root 2 "Inr ()" ex_final]
    s rd ex_scan ex_endswith(5) h j b
  show ?thesis
    by metis
qed

text \<open>
  Claim C7. When a first run has returned and the second starts in a world that holds
  the same tree as the first run left (the same entries in every directory, in whatever
  order), the second run returns with the same fuel and the two print the same set of
  lines.
\<close>

theorem scan_twice_same_set:
  assumes "scan fuel w rt = Some (r, w')" and "same_tree w' v"
  shows "\<exists>r' v'. scan fuel v rt = Some (r', v') \<and> set (emitted v v') = set (emitted w w')"
proof -
  from assms(1) have "dir_entries w' = dir_entries w" "symlinks w' = symlinks w"
    "files w' = files w" "print_error w' = print_error w"
    by (auto simp: scan_Some)
  with assms(2) have st: "same_tree w v"
    by (simp add: same_tree_def)
  from assms(1) have "scan fuel w rt \<noteq> None"
    by simp
  then have wk: "os_walk fuel w rt False \<noteq> None" and nb: "no_blocking w rt"
    unfolding scan_returns_iff by blast+
  from st wk have "os_walk fuel v rt False \<noteq> None"
    by (rule same_tree_walk)
  moreover from nb have "no_blocking v rt"
    unfolding same_tree_no_blocking [OF st] .
  ultimately have "scan fuel v rt \<noteq> None"
    unfolding scan_returns_iff by blast
  then obtain r' v' where sv: "scan fuel v rt = Some (r', v')"
    by auto
  have "set (emitted v v') = set (emitted w w')"
    using emitted_iff [OF sv] emitted_iff [OF assms(1)] same_tree_reported [OF st]
    by blast
  with sv show ?thesis by blast
qed

theorem scan_twice_same_set_witness:
  "scan 2 ex_world root = Some (Inr (), ex_final) \<and> same_tree ex_final ex_reordered
   \<and> dir_entries ex_reordered root \<noteq> dir_entries ex_final root
   \<and> (\<exists>r' v'. scan 2 ex_reordered root = Some (r', v')
         \<and> set (emitted ex_reordered v') = {[''a.json''], [''sub'', ''d.yaml'']})"
proof -
  have "dir_entries ex_reordered root \<noteq> dir_entries ex_final root"
    by (simp add: ex_reordered_def ex_final_def ex_world_def ex_entries_def)
  moreover have "set (emitted ex_world ex_final) = {[''a.json''], [''sub'', ''d.yaml'']}"
    by (simp add: ex_emitted)
  ultimately show ?thesis
    using scan_twice_same_set [OF ex_scan ex_same_tree] ex_scan ex_same_tree
    by simp
qed






text \<open>
  Claim C10, amended to what the script does: with \<^verbatim>\<open>followlinks\<close> false the walk
  yields no directory reached through a symbolic link: no path from below the root down
  to a yielded directory is a link. So the walk returns whenever the directories reached
  without links are finitely many, also where links form a cycle, as \<^verbatim>\<open>sub/loop\<close> does
  in the example world; the run returns when moreover no candidate blocks on \<^verbatim>\<open>open\<close>
  or \<^verbatim>\<open>read\<close>, and a run that returns has met no candidate that blocks.
\<close>

theorem walk_skips_links_and_terminates:
  "(finite {rel. descends w rt rel} \<longrightarrow> (\<exists>fuel items. os_walk fuel w rt False = Some items))
   \<and> (finite {rel. descends w rt rel} \<and> no_blocking w rt
        \<longrightarrow> (\<exists>fuel w'. scan fuel w rt = Some (Inr (), w')))
   \<and> (returns w rt \<longrightarrow> no_blocking w rt)
   \<and> (os_walk fuel w rt False = Some items \<and> (d, ds, ns) \<in> set items
        \<and> strict_prefix rt p \<and> prefix p d \<longrightarrow> \<not> os_path_islink w p)"
proof -
  have "\<not> os_path_islink w p"
    if wk: "os_walk fuel w rt False = Some items" and it: "(d, ds, ns) \<in> set items"
      and sp: "strict_prefix rt p" and pd: "prefix p d"
  proof -
    from os_walk_sound [OF wk it] obtain rel where d: "d = rt @ rel" and de: "descends w rt rel"
      by blast
    from sp obtain rel1 where p: "p = rt @ rel1" and ne: "rel1 \<noteq> []"
      by (auto simp: strict_prefix_def prefix_def)
    from pd d p have "prefix rel1 rel" by simp
    from descends_no_link [OF de this ne] p show ?thesis by simp
  qed
  moreover have "\<exists>fuel items. os_walk fuel w rt False = Some items"
    if "finite {rel. descends w rt rel}"
    using that by (rule walk_terminates)
  ultimately show ?thesis
    using scan_terminates returns_no_blocking by blast
qed

theorem walk_skips_links_and_terminates_witness:
  "finite {rel. descends ex_world root rel} \<and> no_blocking ex_world root
   \<and> os_path_islink ex_world (root @ [''sub'', ''loop''])
   \<and> os_scandir ex_world (root @ [''sub'', ''loop'']) = os_scandir ex_world root
   \<and> (\<exists>fuel w'. scan fuel ex_world root = Some (Inr (), w'))
   \<and> os_walk 2 ex_world root False = Some ex_items
   \<and> (root @ [''sub''], [''loop''], [''d.yaml'']) \<in> set ex_items
   \<and> strict_prefix root (root @ [''sub'']) \<and> prefix (root @ [''sub'']) (root @ [''sub''])
   \<and> \<not> os_path_islink ex_world (root @ [''sub''])"
proof -
  have i: "(root @ [''sub''], [''loop''], [''d.yaml'']) \<in> set ex_items"
    by (simp add: ex_items_def)
  have s: "strict_prefix root (root @ [''sub''])"
    "prefix (root @ [''sub'']) (root @ [''sub''])"
    by (simp_all add: strict_prefix_def)
  from walk_skips_links_and_terminates [of ex_world root 2 ex_items "root @ [''sub'']"
      "[''loop'']" "[''d.yaml'']" "root @ [''sub'']"]
    ex_finite ex_no_blocking ex_islink(1) ex_loop(1) ex_walk i s
  show ?thesis
    by blast
qed

text \<open>
  Claim C10 as it is written has the scan terminate on every finite filesystem. It
  does not where a candidate blocks: the tree of \<open>fifo_world\<close> is one directory with one
  entry, no link anywhere, the entry is a named pipe \<^verbatim>\<open>pipe.json\<close> that no writer has
  opened, the walk yields the root at once, and \<^verbatim>\<open>open\<close> on the pipe never returns, so
  the run returns for no amount of fuel.
\<close>

theorem pipe_blocks_scan:
  "finite {rel. descends fifo_world root rel}
   \<and> (\<forall>p. \<not> os_path_islink fifo_world p)
   \<and> os_walk 1 fifo_world root False = Some [(root, [], [''pipe.json''])]
   \<and> endswith ''pipe.json'' exts
   \<and> open_rb fifo_world (os_path_join root ''pipe.json'') = None
   \<and> check_file fifo_world root root ''pipe.json'' = None
   \<and> (\<forall>fuel. scan fuel fifo_world root = None)
   \<and> \<not> returns fifo_world root"
proof -
  have "\<forall>p. \<not> os_path_islink fifo_world p"
    by (simp add: os_path_islink_def fifo_world_def)
  moreover have "os_walk 1 fifo_world root False = Some [(root, [], [''pipe.json''])]"
    using fifo_walk [of 0] by simp
  moreover have "check_file fifo_world root root ''pipe.json'' = None"
    by (simp add: check_file_eq fifo_endswith fifo_hangs)
  moreover have "\<not> returns fifo_world root"
    by (simp add: returns_def fifo_scan)
  ultimately show ?thesis
    using fifo_finite fifo_endswith fifo_open fifo_scan by blast
qed

end
